theory Spec2Isabelle
  imports Main "HOL-Library.Word"
begin

unbundle bit_operations_syntax

section \<open>Stream cipher engine (CAN_Data_Logger_Encoded.ino, lines 104-109 and 304-316)\<close>

type_synonym byte = "8 word"
type_synonym u32 = "32 word"

text \<open>The static key \<open>ENCRYPTION_KEY[16]\<close>.\<close>

definition ENCRYPTION_KEY :: "byte list" where
  "ENCRYPTION_KEY =
     [0x3A, 0x7C, 0xB5, 0x19,
      0xE4, 0x58, 0xC1, 0x0D,
      0x92, 0xAF, 0x63, 0x27,
      0xFE, 0x34, 0x88, 0x4B]"

text \<open>
  \<open>resetCipherState\<close>: the global \<open>currentCipherState\<close> is set to
  \<open>currentFileNonce ^ 0xA5A5A5A5\<close> and then run through the loop
  \<open>for (int i = 0; i < 16; i++)\<close>. The key is a parameter of the model; the firmware
  always passes \<open>ENCRYPTION_KEY\<close>. All arithmetic is \<open>uint32_t\<close>.
\<close>

function resetCipherState_loop :: "byte list \<Rightarrow> nat \<Rightarrow> u32 \<Rightarrow> u32" where
  "resetCipherState_loop key i st =
     (if i < 16
      then resetCipherState_loop key (i + 1) ((st * 1664525) + 1013904223 + ucast (key ! i))
      else st)"
  by pat_completeness auto
termination
  by (relation "measure (\<lambda>(key, i, st). 16 - i)") auto

declare resetCipherState_loop.simps [simp del]

definition resetCipherState :: "byte list \<Rightarrow> u32 \<Rightarrow> u32" where
  "resetCipherState key nonce = resetCipherState_loop key 0 (nonce XOR 0xA5A5A5A5)"

text \<open>
  \<open>encryptByte\<close>: advances the cipher state and returns the input byte XORed with the
  stream byte. The result pairs the returned byte with the new \<open>currentCipherState\<close>.
\<close>

definition encryptByte :: "byte list \<Rightarrow> u32 \<Rightarrow> byte \<Rightarrow> byte \<times> u32" where
  "encryptByte key st inputByte =
     (let st' = (st * 1664525) + 1013904223;
          keyByte = key ! unat (st' AND 0x0F);
          streamByte = (ucast ((drop_bit 24 st') AND 0xFF) :: byte) XOR keyByte
      in (inputByte XOR streamByte, st'))"

text \<open>
  The byte loop shared by \<open>writeEncryptedBuffer\<close> and \<open>writeEncryptedLine\<close>
  (\<open>for (size_t i = 0; i < length; i++) encryptByte(data[i])\<close>): the bytes handed to
  \<open>logFile.write\<close>, in order, and the cipher state afterwards.
\<close>

fun encryptBytes :: "byte list \<Rightarrow> u32 \<Rightarrow> byte list \<Rightarrow> byte list \<times> u32" where
  "encryptBytes key st [] = ([], st)"
| "encryptBytes key st (b # bs) =
     (let (c, st') = encryptByte key st b;
          (cs, st'') = encryptBytes key st' bs
      in (c # cs, st''))"

subsection \<open>The algorithm as the specification words it\<close>

definition spec_lcg :: "u32 \<Rightarrow> u32" where
  "spec_lcg state = state * 1664525 + 1013904223"

definition spec_initialize :: "byte list \<Rightarrow> u32 \<Rightarrow> u32" where
  "spec_initialize key nonce =
     foldl (\<lambda>state k. state * 1664525 + 1013904223 + ucast k) (nonce XOR 0xA5A5A5A5) key"

definition spec_keystream_byte :: "byte list \<Rightarrow> u32 \<Rightarrow> byte" where
  "spec_keystream_byte key state = ucast (drop_bit 24 state) XOR key ! unat (state AND 0x0F)"

text \<open>The cipher state after \<open>n\<close> output bytes, and the \<open>n\<close>-th keystream byte (from 0).\<close>

definition spec_state :: "byte list \<Rightarrow> u32 \<Rightarrow> nat \<Rightarrow> u32" where
  "spec_state key nonce n = (spec_lcg ^^ n) (spec_initialize key nonce)"

definition spec_keystream :: "byte list \<Rightarrow> u32 \<Rightarrow> nat \<Rightarrow> byte" where
  "spec_keystream key nonce n = spec_keystream_byte key (spec_lcg (spec_state key nonce n))"

section \<open>Frames and the live ring buffer (lines 113-146, 1448-1469, 2549-2632)\<close>

text \<open>
  C arrays are lists here; an access outside the array is undefined behaviour in the
  firmware and the value \<open>None\<close> in the model.
\<close>

definition array_get :: "'a list \<Rightarrow> nat \<Rightarrow> 'a option" where
  "array_get xs i = (if i < length xs then Some (xs ! i) else None)"

definition array_set :: "'a list \<Rightarrow> nat \<Rightarrow> 'a \<Rightarrow> 'a list option" where
  "array_set xs i v = (if i < length xs then Some (xs[i := v]) else None)"

text \<open>
  \<open>struct CanFrame\<close>; \<open>data\<close> is \<open>uint8_t data[8]\<close>. The field \<open>identifier\<close> is
  written \<open>identifier_f\<close> (the plain name is reserved in Isabelle).
\<close>

record CanFrame =
  identifier_f :: u32
  extd :: bool
  rtr :: bool
  data_length_code :: byte
  data :: "byte list"

definition CanFrame_ok :: "CanFrame \<Rightarrow> bool" where
  "CanFrame_ok frame = (length (data frame) = 8)"

text \<open>
  \<open>struct LiveFrame\<close>. The fields \<open>identifier\<close>, \<open>rtr\<close> and \<open>data\<close> carry the
  suffix \<open>_l\<close>, since \<open>CanFrame\<close> has fields of the same names. \<open>time_t\<close> is an
  integer; \<open>timeText\<close> is \<open>char timeText[24]\<close> holding a NUL-terminated string.
\<close>

record LiveFrame =
  seq :: u32
  unixTime :: int
  micros :: u32
  timeText :: string
  identifier_l :: u32
  extended :: bool
  rtr_l :: bool
  dlc :: byte
  data_l :: "byte list"

definition LIVE_BUFFER_SIZE :: nat where
  "LIVE_BUFFER_SIZE = 200"

definition LIVE_DEFAULT_LIMIT :: int where
  "LIVE_DEFAULT_LIMIT = 50"

text \<open>The globals \<open>liveFrameBuffer[LIVE_BUFFER_SIZE]\<close> and \<open>liveFrameCounter\<close>.\<close>

record live =
  liveFrameBuffer :: "LiveFrame list"
  liveFrameCounter :: u32

text \<open>Zero-initialised globals, as at boot.\<close>

definition LiveFrame_zero :: LiveFrame where
  "LiveFrame_zero =
     \<lparr>seq = 0, unixTime = 0, micros = 0, timeText = [], identifier_l = 0, extended = False,
      rtr_l = False, dlc = 0, data_l = replicate 8 0\<rparr>"

definition live_boot :: live where
  "live_boot = \<lparr>liveFrameBuffer = replicate LIVE_BUFFER_SIZE LiveFrame_zero, liveFrameCounter = 0\<rparr>"

text \<open>
  The two payload loops of \<open>storeLiveFrame\<close>:
  \<open>for (int i = 0; i < frame.data_length_code && i < 8; i++) slot.data[i] = frame.data[i];\<close>
  and \<open>for (int i = frame.data_length_code; i < 8; i++) slot.data[i] = 0;\<close>
\<close>

function copy_payload_loop :: "CanFrame \<Rightarrow> nat \<Rightarrow> byte list \<Rightarrow> byte list option" where
  "copy_payload_loop frame i slot_data =
     (if i < unat (data_length_code frame) \<and> i < 8
      then (case array_get (data frame) i of
              None \<Rightarrow> None
            | Some b \<Rightarrow>
                (case array_set slot_data i b of
                   None \<Rightarrow> None
                 | Some slot_data' \<Rightarrow> copy_payload_loop frame (i + 1) slot_data'))
      else Some slot_data)"
  by pat_completeness auto
termination
  by (relation "measure (\<lambda>(frame, i, slot_data). 8 - i)") auto

declare copy_payload_loop.simps [simp del]

function zero_fill_loop :: "nat \<Rightarrow> byte list \<Rightarrow> byte list option" where
  "zero_fill_loop i slot_data =
     (if i < 8
      then (case array_set slot_data i 0 of
              None \<Rightarrow> None
            | Some slot_data' \<Rightarrow> zero_fill_loop (i + 1) slot_data')
      else Some slot_data)"
  by pat_completeness auto
termination
  by (relation "measure (\<lambda>(i, slot_data). 8 - i)") auto

declare zero_fill_loop.simps [simp del]

text \<open>
  \<open>storeLiveFrame\<close>. \<open>formattedTime.toCharArray(slot.timeText, 24)\<close> keeps at most 23
  characters.
\<close>

definition storeLiveFrame ::
  "CanFrame \<Rightarrow> int \<Rightarrow> u32 \<Rightarrow> string \<Rightarrow> 'a live_scheme \<Rightarrow> 'a live_scheme option" where
  "storeLiveFrame frame timestamp us formattedTime s =
     (let nextSeq = liveFrameCounter s + 1;
          idx = unat ((nextSeq - 1) mod 200)
      in case array_get (liveFrameBuffer s) idx of
           None \<Rightarrow> None
         | Some slot \<Rightarrow>
             (case copy_payload_loop frame 0 (data_l slot) of
                None \<Rightarrow> None
              | Some d1 \<Rightarrow>
                  (case zero_fill_loop (unat (data_length_code frame)) d1 of
                     None \<Rightarrow> None
                   | Some d2 \<Rightarrow>
                       Some (s\<lparr>liveFrameBuffer :=
                                  (liveFrameBuffer s)
                                    [idx := slot\<lparr>seq := nextSeq,
                                                 unixTime := timestamp,
                                                 micros := us,
                                                 timeText := take 23 formattedTime,
                                                 identifier_l := identifier_f frame,
                                                 extended := extd frame,
                                                 rtr_l := rtr frame,
                                                 dlc := data_length_code frame,
                                                 data_l := d2\<rparr>],
                               liveFrameCounter := nextSeq\<rparr>))))"

text \<open>Successive calls of \<open>storeLiveFrame\<close>, one per received frame.\<close>

fun storeLiveFrames ::
  "(CanFrame \<times> int \<times> u32 \<times> string) list \<Rightarrow> 'a live_scheme \<Rightarrow> 'a live_scheme option" where
  "storeLiveFrames [] s = Some s"
| "storeLiveFrames ((frame, timestamp, us, formattedTime) # rest) s =
     (case storeLiveFrame frame timestamp us formattedTime s of
        None \<Rightarrow> None
      | Some s' \<Rightarrow> storeLiveFrames rest s')"

text \<open>
  \<open>handleLiveData\<close>. The request arguments arrive parsed: \<open>server.arg("since").toInt()\<close>
  is a \<open>long\<close> and \<open>server.arg("limit").toInt()\<close> an \<open>int\<close>, both 32-bit signed and read
  with \<open>sint\<close>; \<open>None\<close> is an absent argument. The model returns the \<open>latest\<close> field and
  the frames serialised into the \<open>frames\<close> array, in order. The loop
  \<open>for (uint32_t seq = startSeq; seq <= liveFrameCounter && added < limit; seq++)\<close> need
  not end when \<open>liveFrameCounter\<close> is \<open>0xFFFFFFFF\<close>; not returning is \<open>None\<close>.
\<close>

definition constrain :: "int \<Rightarrow> int \<Rightarrow> int \<Rightarrow> int" where
  "constrain amt low high = (if amt < low then low else if amt > high then high else amt)"

definition live_since :: "u32 option \<Rightarrow> u32" where
  "live_since sinceArg =
     (case sinceArg of
        None \<Rightarrow> 0
      | Some a \<Rightarrow> if sint a > 0 then a else 0)"

definition live_limit :: "u32 option \<Rightarrow> int" where
  "live_limit limitArg =
     (case limitArg of
        None \<Rightarrow> LIVE_DEFAULT_LIMIT
      | Some requested \<Rightarrow>
          if sint requested > 0 then constrain (sint requested) 1 (int LIVE_BUFFER_SIZE)
          else LIVE_DEFAULT_LIMIT)"

partial_function (option) live_loop ::
  "LiveFrame list \<Rightarrow> u32 \<Rightarrow> int \<Rightarrow> u32 \<Rightarrow> int \<Rightarrow> LiveFrame list \<Rightarrow> LiveFrame list option" where
  "live_loop buf latest limit sq added out =
     (if sq \<le> latest \<and> added < limit
      then (case array_get buf (unat ((sq - 1) mod 200)) of
              None \<Rightarrow> None
            | Some frame \<Rightarrow>
                if seq frame \<noteq> sq
                then live_loop buf latest limit (sq + 1) added out
                else live_loop buf latest limit (sq + 1) (added + 1) (out @ [frame]))
      else Some out)"

declare live_loop.simps [code]

definition live_earliestSeq :: "u32 \<Rightarrow> u32" where
  "live_earliestSeq latest = (if latest \<ge> 200 then latest - 200 + 1 else 1)"

definition live_startSeq :: "u32 \<Rightarrow> u32 \<Rightarrow> u32" where
  "live_startSeq since latest =
     (let earliestSeq = live_earliestSeq latest;
          startSeq = (if since > 0 then since + 1 else earliestSeq);
          startSeq = (if startSeq < earliestSeq then earliestSeq else startSeq);
          startSeq = (if startSeq > latest then latest else startSeq)
      in startSeq)"

definition handleLiveData ::
  "u32 option \<Rightarrow> u32 option \<Rightarrow> 'a live_scheme \<Rightarrow> (u32 \<times> LiveFrame list) option" where
  "handleLiveData sinceArg limitArg s =
     (let since = live_since sinceArg;
          limit = live_limit limitArg
      in if liveFrameCounter s > 0
         then (case live_loop (liveFrameBuffer s) (liveFrameCounter s) limit
                      (live_startSeq since (liveFrameCounter s)) 0 [] of
                 None \<Rightarrow> None
               | Some frames \<Rightarrow> Some (liveFrameCounter s, frames))
         else Some (liveFrameCounter s, []))"

text \<open>
  The array shapes the C types fix: 200 slots, each with an 8-byte payload.
\<close>

definition live_ok :: "'a live_scheme \<Rightarrow> bool" where
  "live_ok s =
     (length (liveFrameBuffer s) = LIVE_BUFFER_SIZE
      \<and> list_all (\<lambda>slot. length (data_l slot) = 8) (liveFrameBuffer s))"

text \<open>
  The slots of the sequences \<open>latest - min latest 200 + 1 .. latest\<close>, oldest first: what the
  buffer retains.
\<close>

definition live_retained :: "'a live_scheme \<Rightarrow> LiveFrame list" where
  "live_retained s =
     (let latest = unat (liveFrameCounter s)
      in map (\<lambda>i. liveFrameBuffer s ! (i mod 200)) [latest - min latest 200 ..< latest])"

text \<open>
  What a slot holds after \<open>storeLiveFrame\<close>: the payload bytes below the data length,
  zeros from there on, and the frame's fields under the sequence number \<open>sq\<close>.
\<close>

definition slot_payload :: "CanFrame \<Rightarrow> byte list" where
  "slot_payload frame =
     map (\<lambda>j. if j < unat (data_length_code frame) then data frame ! j else 0) [0..<8]"

definition live_slot :: "CanFrame \<Rightarrow> int \<Rightarrow> u32 \<Rightarrow> string \<Rightarrow> u32 \<Rightarrow> LiveFrame" where
  "live_slot frame timestamp us formattedTime sq =
     \<lparr>seq = sq, unixTime = timestamp, micros = us, timeText = take 23 formattedTime,
      identifier_l = identifier_f frame, extended = extd frame, rtr_l = rtr frame,
      dlc = data_length_code frame, data_l = slot_payload frame\<rparr>"

text \<open>
  The invariant of the ring buffer: the slot of each retained sequence number stores that
  sequence number.
\<close>

definition live_inv :: "'a live_scheme \<Rightarrow> bool" where
  "live_inv s =
     (live_ok s
      \<and> list_all
          (\<lambda>j. seq (liveFrameBuffer s ! ((unat (liveFrameCounter s) - 1 - j) mod 200))
                 = of_nat (unat (liveFrameCounter s) - j))
          [0..<min (unat (liveFrameCounter s)) 200])"

text \<open>A frame with three payload bytes, used in the examples below.\<close>

definition frame_123 :: CanFrame where
  "frame_123 =
     \<lparr>identifier_f = 0x123, extd = False, rtr = False, data_length_code = 3,
      data = [0xAB, 0xCD, 0xEF, 0x11, 0x22, 0x33, 0x44, 0x55]\<rparr>"

text \<open>
  205 pushes of that frame from boot, and the state they lead to: the sequences 201..205
  have overwritten the slots 0..4, the slots 5..199 still hold the sequences 6..200.
\<close>

definition pushes_205 :: "(CanFrame \<times> int \<times> u32 \<times> string) list" where
  "pushes_205 = replicate 205 (frame_123, 1769678401, 123456, ''2026-01-29 12:00:01'')"

definition live_after_205 :: live where
  "live_after_205 =
     \<lparr>liveFrameBuffer =
        map (\<lambda>i. live_slot frame_123 1769678401 123456 ''2026-01-29 12:00:01''
                   (of_nat (if i < 5 then 201 + i else i + 1)))
          [0..<200],
      liveFrameCounter = 205\<rparr>"

text \<open>One push from boot, and a boot buffer whose counter stands at \<open>0xFFFFFFFF\<close>.\<close>

definition pushes_1 :: "(CanFrame \<times> int \<times> u32 \<times> string) list" where
  "pushes_1 = [(frame_123, 1769678401, 123456, ''2026-01-29 12:00:01'')]"

definition live_after_1 :: live where
  "live_after_1 =
     \<lparr>liveFrameBuffer =
        live_slot frame_123 1769678401 123456 ''2026-01-29 12:00:01'' 1
          # replicate 199 LiveFrame_zero,
      liveFrameCounter = 1\<rparr>"

definition live_at_max :: live where
  "live_at_max = live_boot\<lparr>liveFrameCounter := 0xFFFFFFFF\<rparr>"

section \<open>Record encoder (writeCANMessage, lines 1342-1416)\<close>

text \<open>
  The Arduino \<open>String\<close> conversions the encoder uses: \<open>String(value, base)\<close> of an
  unsigned value (digits \<open>0-9a-z\<close>, no padding, no prefix), \<open>String(int)\<close>, and
  \<open>toUpperCase\<close>.
\<close>

definition digit_char :: "nat \<Rightarrow> char" where
  "digit_char d = ''0123456789abcdefghijklmnopqrstuvwxyz'' ! d"

function String_num :: "nat \<Rightarrow> nat \<Rightarrow> string" where
  "String_num val base =
     (if base < 2 then []
      else if val < base then [digit_char val]
      else String_num (val div base) base @ [digit_char (val mod base)])"
  by pat_completeness auto
termination
  by (relation "measure (\<lambda>(val, base). val)") auto

declare String_num.simps [simp del]

definition String_int :: "int \<Rightarrow> string" where
  "String_int i = (if i < 0 then ''-'' @ String_num (nat (- i)) 10 else String_num (nat i) 10)"

definition toupper :: "char \<Rightarrow> char" where
  "toupper c =
     (case map_of (zip ''abcdefghijklmnopqrstuvwxyz'' ''ABCDEFGHIJKLMNOPQRSTUVWXYZ'') c of
        None \<Rightarrow> c
      | Some u \<Rightarrow> u)"

definition toUpperCase :: "string \<Rightarrow> string" where
  "toUpperCase str = map toupper str"

text \<open>
  A \<open>float\<close> is opaque to the encoder, which only renders it with
  \<open>String(value, decimals)\<close>: it is modelled by that rendering. \<open>float_zero\<close> is \<open>0.0f\<close>.
\<close>

type_synonym float = "nat \<Rightarrow> string"

definition float_zero :: float where
  "float_zero decimals = (if decimals = 0 then ''0'' else ''0.'' @ replicate decimals CHR ''0'')"

text \<open>The IMU and GPS globals read by \<open>writeCANMessage\<close>.\<close>

record sensors =
  imuAvailable :: bool
  imuHasData :: bool
  linearAccelX :: float
  linearAccelY :: float
  linearAccelZ :: float
  gravityAccel :: float
  gpsHasFix :: bool
  gpsLat :: float
  gpsLon :: float
  gpsAlt :: float
  gpsSpeed :: float
  gpsCourse :: float
  gpsSats :: int
  gpsHdop :: float
  gpsTimeText :: string

text \<open>
  The data columns: \<open>for (int i = 0; i < 8; i++)\<close> appends a comma and either the byte in
  two hex digits or \<open>"00"\<close>. \<open>len\<close> is the clamped length (the local \<open>dlc\<close>).
\<close>

function data_columns_loop :: "CanFrame \<Rightarrow> nat \<Rightarrow> nat \<Rightarrow> string \<Rightarrow> string option" where
  "data_columns_loop frame len i line =
     (if i < 8
      then (if i < len
            then (case array_get (data frame) i of
                    None \<Rightarrow> None
                  | Some b \<Rightarrow>
                      data_columns_loop frame len (i + 1)
                        ((if b < 0x10 then line @ '','' @ ''0'' else line @ '','')
                           @ toUpperCase (String_num (unat b) 16)))
            else data_columns_loop frame len (i + 1) (line @ '','' @ ''00''))
      else Some line)"
  by pat_completeness auto
termination
  by (relation "measure (\<lambda>(frame, len, i, line). 8 - i)") auto

declare data_columns_loop.simps [simp del]

text \<open>
  The line, in the order the code appends to it. \<open>timeStr\<close> is the \<open>sprintf\<close> of
  \<open>localtime(&timestamp)\<close>; \<open>(unsigned long)\<close> is 32 bits wide on the target.
\<close>

definition csv_time_fields :: "string \<Rightarrow> int \<Rightarrow> u32 \<Rightarrow> string" where
  "csv_time_fields timeStr timestamp us =
     timeStr @ '','' @ String_num (nat (timestamp mod 2 ^ 32)) 10 @ '','' @ String_num (unat us) 10"

definition csv_sensor_fields :: "sensors \<Rightarrow> string" where
  "csv_sensor_fields sn =
     (if imuAvailable sn \<and> imuHasData sn then linearAccelX sn else float_zero) 4 @ '',''
     @ (if imuAvailable sn \<and> imuHasData sn then linearAccelY sn else float_zero) 4 @ '',''
     @ (if imuAvailable sn \<and> imuHasData sn then linearAccelZ sn else float_zero) 4 @ '',''
     @ (if imuAvailable sn \<and> imuHasData sn then gravityAccel sn else float_zero) 4
     @ (if gpsHasFix sn
        then '','' @ gpsLat sn 6 @ '','' @ gpsLon sn 6 @ '','' @ gpsAlt sn 2 @ '',''
             @ gpsSpeed sn 2 @ '','' @ gpsCourse sn 2 @ '','' @ String_int (gpsSats sn)
             @ '','' @ gpsHdop sn 2 @ '','' @ gpsTimeText sn
        else '',0,0,0,0,0,0,0,0'')"

definition csv_line :: "string \<Rightarrow> int \<Rightarrow> u32 \<Rightarrow> CanFrame \<Rightarrow> sensors \<Rightarrow> string option" where
  "csv_line timeStr timestamp us frame sn =
     (let line = csv_time_fields timeStr timestamp us @ '','';
          idStr = toUpperCase (String_num (unat (identifier_f frame)) 16);
          line = line @ idStr;
          line = line @ '','' @ (if extd frame then ''1'' else ''0'');
          line = line @ '','' @ (if rtr frame then ''1'' else ''0'');
          line = line @ '','' @ String_num (unat (data_length_code frame)) 10;
          len = (if data_length_code frame > 8 then 8 else data_length_code frame)
      in case data_columns_loop frame (unat len) 0 line of
           None \<Rightarrow> None
         | Some line \<Rightarrow> Some (line @ '','' @ csv_sensor_fields sn))"

text \<open>A byte in two upper-case hexadecimal digits.\<close>

definition hex_byte :: "byte \<Rightarrow> string" where
  "hex_byte b = [''0123456789ABCDEF'' ! (unat b div 16), ''0123456789ABCDEF'' ! (unat b mod 16)]"

text \<open>The sensor globals as initialised at boot, and a frame whose length code is 15.\<close>

definition sensors_boot :: sensors where
  "sensors_boot =
     \<lparr>imuAvailable = False, imuHasData = False, linearAccelX = float_zero,
      linearAccelY = float_zero, linearAccelZ = float_zero, gravityAccel = float_zero,
      gpsHasFix = False, gpsLat = float_zero, gpsLon = float_zero, gpsAlt = float_zero,
      gpsSpeed = float_zero, gpsCourse = float_zero, gpsSats = 0, gpsHdop = float_zero,
      gpsTimeText = ''0''\<rparr>"

definition frame_dlc15 :: CanFrame where
  "frame_dlc15 = frame_123\<lparr>data_length_code := 15\<rparr>"

section \<open>Storage and the log file writer\<close>

text \<open>
  The SD library and the C library are outside the repository; what the firmware uses of
  them is a parameter of the model:
  \<^item> \<open>FILE_WRITE\<close>, the mode of \<open>SD.open(path, FILE_WRITE)\<close>: it either empties an
    existing file (\<open>OpenTruncate\<close>, C's \<open>"w"\<close>) or keeps it and writes at its end
    (\<open>OpenAppend\<close>);
  \<^item> \<open>localtime\<close>, from seconds to calendar fields.
\<close>

datatype open_mode = OpenTruncate | OpenAppend

record tm =
  tm_year :: int
  tm_mon :: int
  tm_mday :: int
  tm_hour :: int
  tm_min :: int
  tm_sec :: int

record platform =
  FILE_WRITE :: open_mode
  localtime :: "int \<Rightarrow> tm"

text \<open>\<open>sprintf\<close>'s \<open>%0Nd\<close>.\<close>

definition sprintf_0d :: "nat \<Rightarrow> int \<Rightarrow> string" where
  "sprintf_0d width x =
     (let digits = String_num (nat \<bar>x\<bar>) 10;
          sign = (if x < 0 then ''-'' else [])
      in sign @ replicate (width - length sign - length digits) CHR ''0'' @ digits)"

text \<open>\<open>sprintf(timeStr, "%04d-%02d-%02d %02d:%02d:%02d", ...)\<close> of \<open>localtime(&timestamp)\<close>.\<close>

definition format_timeStr :: "platform \<Rightarrow> int \<Rightarrow> string" where
  "format_timeStr P timestamp =
     (let timeinfo = localtime P timestamp
      in sprintf_0d 4 (tm_year timeinfo + 1900) @ ''-'' @ sprintf_0d 2 (tm_mon timeinfo + 1)
         @ ''-'' @ sprintf_0d 2 (tm_mday timeinfo) @ '' '' @ sprintf_0d 2 (tm_hour timeinfo)
         @ '':'' @ sprintf_0d 2 (tm_min timeinfo) @ '':'' @ sprintf_0d 2 (tm_sec timeinfo))"

text \<open>
  The state shared by the firmware variants: the live buffer, the globals of the writer
  (\<open>logFile\<close> is the open handle, a path and a write position, \<open>None\<close> for a \<open>File\<close> that
  tests false) and the card. The card is its files (\<open>files\<close>) and the outcomes of the
  calls that can fail, in call order (\<open>io_plan\<close>, \<open>True\<close> for success; a call beyond the
  end of the plan succeeds). \<open>flush\<close> does not change what a file holds and is left out.
\<close>

record storage = live +
  logFile :: "(string \<times> nat) option"
  currentLogFileName :: string
  currentFileSize :: u32
  sdCardReady :: bool
  baseTime :: int
  files :: "string \<rightharpoonup> byte list"
  io_plan :: "bool list"

definition io_next :: "'a storage_scheme \<Rightarrow> bool \<times> 'a storage_scheme" where
  "io_next s =
     (case io_plan s of
        [] \<Rightarrow> (True, s)
      | ok # rest \<Rightarrow> (ok, s\<lparr>io_plan := rest\<rparr>))"

text \<open>\<open>SD.open(path, FILE_WRITE)\<close> and \<open>SD.open(path, FILE_READ)\<close>: the handle or \<open>None\<close>.\<close>

definition SD_open_write ::
  "platform \<Rightarrow> string \<Rightarrow> 'a storage_scheme \<Rightarrow> (string \<times> nat) option \<times> 'a storage_scheme" where
  "SD_open_write P path s =
     (let (ok, s) = io_next s
      in if \<not> ok then (None, s)
         else (case FILE_WRITE P of
                 OpenTruncate \<Rightarrow> (Some (path, 0), s\<lparr>files := (files s)(path \<mapsto> [])\<rparr>)
               | OpenAppend \<Rightarrow>
                   (let content = (case files s path of None \<Rightarrow> [] | Some c \<Rightarrow> c)
                    in (Some (path, length content), s\<lparr>files := (files s)(path \<mapsto> content)\<rparr>))))"

definition SD_open_read ::
  "string \<Rightarrow> 'a storage_scheme \<Rightarrow> (string \<times> nat) option \<times> 'a storage_scheme" where
  "SD_open_read path s =
     (let (ok, s) = io_next s
      in if ok \<and> files s path \<noteq> None then (Some (path, 0), s) else (None, s))"

text \<open>
  \<open>logFile.write(byte)\<close>: the byte goes to the write position, which advances; the result
  is whether one byte was written. \<open>logFile.write(buf, n)\<close> is one call.
\<close>

definition put_bytes :: "nat \<Rightarrow> byte list \<Rightarrow> byte list \<Rightarrow> byte list" where
  "put_bytes pos bs content = take pos content @ bs @ drop (pos + length bs) content"

definition logFile_write_buf :: "byte list \<Rightarrow> 'a storage_scheme \<Rightarrow> bool \<times> 'a storage_scheme" where
  "logFile_write_buf bs s =
     (case logFile s of
        None \<Rightarrow> (False, s)
      | Some (path, pos) \<Rightarrow>
          (case files s path of
             None \<Rightarrow> (False, s)
           | Some content \<Rightarrow>
               (let (ok, s) = io_next s
                in if \<not> ok then (False, s)
                   else (True, s\<lparr>files := (files s)(path \<mapsto> put_bytes pos bs content),
                                  logFile := Some (path, pos + length bs)\<rparr>))))"

definition logFile_write :: "byte \<Rightarrow> 'a storage_scheme \<Rightarrow> bool \<times> 'a storage_scheme" where
  "logFile_write b s = logFile_write_buf [b] s"

definition logFile_size :: "'a storage_scheme \<Rightarrow> u32" where
  "logFile_size s =
     (case logFile s of
        None \<Rightarrow> 0
      | Some (path, pos) \<Rightarrow> (case files s path of None \<Rightarrow> 0 | Some content \<Rightarrow> of_nat (length content)))"

definition logFile_seek :: "u32 \<Rightarrow> 'a storage_scheme \<Rightarrow> 'a storage_scheme" where
  "logFile_seek pos s =
     (case logFile s of
        None \<Rightarrow> s
      | Some (path, _) \<Rightarrow> s\<lparr>logFile := Some (path, unat pos)\<rparr>)"

definition logFile_close :: "'a storage_scheme \<Rightarrow> 'a storage_scheme" where
  "logFile_close s = s\<lparr>logFile := None\<rparr>"

definition byte_of_char :: "char \<Rightarrow> byte" where
  "byte_of_char c = of_nat (of_char c)"

subsection \<open>The encrypting writer (CAN_Data_Logger_Encoded.ino)\<close>

record logger = storage +
  currentFileNonce :: u32
  currentCipherState :: u32
  flushCounter :: byte
  frameSequence :: "16 word"
  writeCount :: u32
  earlyFlushCount :: u32
  messageCount :: u32
  bootMillis :: u32
  folder_exists :: bool
  entropy :: "(u32 \<times> u32 \<times> u32) list"
  sens :: sensors

definition FLUSH_INTERVAL :: byte where
  "FLUSH_INTERVAL = 20"

definition NXT_LOG_SIGNATURE :: string where
  "NXT_LOG_SIGNATURE = ''NXTLOG''"

definition NXT_LOG_VERSION :: byte where
  "NXT_LOG_VERSION = 1"

definition NXT_HEADER_SIZE :: nat where
  "NXT_HEADER_SIZE = 16"

text \<open>
  \<open>generateFileNonce\<close>. \<open>rnd\<close> is \<open>esp_random()\<close>, \<open>ms\<close> and \<open>ms'\<close> are the two readings of
  \<open>millis()\<close>; the logger takes them from \<open>entropy\<close>, one triple for each call.
\<close>

definition generateFileNonce :: "u32 \<Rightarrow> u32 \<Rightarrow> u32 \<Rightarrow> u32 \<Rightarrow> u32" where
  "generateFileNonce rnd ms ms' boot =
     (let randomVal = rnd XOR ms;
          randomVal = randomVal XOR push_bit 16 boot
      in if randomVal = 0 then ms' XOR 0xA5A5A5A5 else randomVal)"

definition closeCurrentFile :: "logger \<Rightarrow> logger" where
  "closeCurrentFile s = (if logFile s \<noteq> None then logFile_close s else s)"

text \<open>
  \<open>writeEncryptedLine\<close>: every character, then the newline, goes through \<open>encryptByte\<close>
  and \<open>logFile.write\<close>; the first failed write closes the file, clears \<open>sdCardReady\<close> and
  returns false.
\<close>

fun writeEncryptedLine_loop :: "byte list \<Rightarrow> logger \<Rightarrow> bool \<times> logger" where
  "writeEncryptedLine_loop [] s = (True, s)"
| "writeEncryptedLine_loop (b # bs) s =
     (let (encrypted, st) = encryptByte ENCRYPTION_KEY (currentCipherState s) b;
          s = s\<lparr>currentCipherState := st\<rparr>;
          (ok, s) = logFile_write encrypted s
      in if \<not> ok then (False, (closeCurrentFile s)\<lparr>sdCardReady := False\<rparr>)
         else writeEncryptedLine_loop bs s)"

definition writeEncryptedLine :: "string \<Rightarrow> logger \<Rightarrow> bool \<times> logger" where
  "writeEncryptedLine line s =
     (if logFile s = None then (False, s)
      else (let (ok, s) = writeEncryptedLine_loop (map byte_of_char line) s
            in if \<not> ok then (False, s)
               else (let (ok, s) = writeEncryptedLine_loop [byte_of_char CHR 0x0A] s
                     in if \<not> ok then (False, s)
                        else (True, s\<lparr>currentFileSize :=
                                          currentFileSize s + of_nat (length line + 1)\<rparr>))))"

text \<open>
  \<open>writeFileHeader\<close>: the 16-byte header (signature, version, header size, the nonce as
  stored by \<open>memcpy\<close> on the little-endian target, four zero bytes), then the encrypted
  column line.
\<close>

definition nxt_header :: "u32 \<Rightarrow> byte list" where
  "nxt_header nonce =
     map byte_of_char NXT_LOG_SIGNATURE @ [NXT_LOG_VERSION, of_nat NXT_HEADER_SIZE]
     @ [ucast nonce, ucast (drop_bit 8 nonce), ucast (drop_bit 16 nonce), ucast (drop_bit 24 nonce)]
     @ [0, 0, 0, 0]"

definition headerLine :: string where
  "headerLine =
     ''Timestamp,UnixTime,Microseconds,ID,Extended,RTR,DLC''
     @ concat (map (\<lambda>i. '',Data'' @ String_num i 10) [0..<8])
     @ '',LinearAccelX,LinearAccelY,LinearAccelZ,Gravity''
     @ '',GPS_Lat,GPS_Lon,GPS_Alt,GPS_Speed,GPS_Course,GPS_Sats,GPS_HDOP,GPS_Time''"

definition writeFileHeader :: "logger \<Rightarrow> bool \<times> logger" where
  "writeFileHeader s =
     (if logFile s = None then (False, s)
      else (let (rnd, ms, ms') = (case entropy s of [] \<Rightarrow> (0, 0, 0) | e # _ \<Rightarrow> e);
                s = s\<lparr>entropy := tl (entropy s)\<rparr>;
                s = s\<lparr>currentFileNonce := generateFileNonce rnd ms ms' (bootMillis s)\<rparr>;
                (ok, s) = logFile_write_buf (nxt_header (currentFileNonce s)) s
            in if \<not> ok then (False, s)
               else (let s = s\<lparr>currentFileSize := logFile_size s\<rparr>;
                         s = s\<lparr>currentCipherState :=
                                  resetCipherState ENCRYPTION_KEY (currentFileNonce s)\<rparr>
                     in writeEncryptedLine headerLine s)))"

text \<open>\<open>generateLogFileName\<close> and \<open>createNewLogFile\<close>.\<close>

definition generateLogFileName :: "platform \<Rightarrow> logger \<Rightarrow> string" where
  "generateLogFileName P s =
     (let timeinfo = localtime P (baseTime s)
      in ''/CAN_Logged_Data/'' @ ''CAN_LOG_''
         @ sprintf_0d 4 (tm_year timeinfo + 1900) @ sprintf_0d 2 (tm_mon timeinfo + 1)
         @ sprintf_0d 2 (tm_mday timeinfo) @ ''_'' @ sprintf_0d 2 (tm_hour timeinfo)
         @ sprintf_0d 2 (tm_min timeinfo) @ sprintf_0d 2 (tm_sec timeinfo) @ ''.NXT'')"

definition createNewLogFile_folder :: "logger \<Rightarrow> bool \<times> logger" where
  \<comment> \<open>lines 807-820: \<open>SD.exists\<close> and \<open>SD.mkdir\<close> of the log folder\<close>
  "createNewLogFile_folder s =
     (if \<not> folder_exists s
      then (let (made, s) = io_next s
            in if made then (True, s\<lparr>folder_exists := True\<rparr>) else (False, s))
      else (True, s))"

definition createNewLogFile_open :: "platform \<Rightarrow> logger \<Rightarrow> logger" where
  \<comment> \<open>lines 822-826: the file name and \<open>logFile = SD.open(currentLogFileName, FILE_WRITE)\<close>\<close>
  "createNewLogFile_open P s =
     (let s = s\<lparr>currentLogFileName := generateLogFileName P s\<rparr>;
          (h, s) = SD_open_write P (currentLogFileName s) s
      in s\<lparr>logFile := h\<rparr>)"

definition createNewLogFile :: "platform \<Rightarrow> logger \<Rightarrow> bool \<times> logger" where
  "createNewLogFile P s =
     (let s = (if logFile s \<noteq> None then logFile_close s else s);
          (ok, s) = createNewLogFile_folder s
      in if \<not> ok then (False, s)
         else (let s = createNewLogFile_open P s
               in if logFile s = None then (False, s)
                  else (let (ok, s) = writeFileHeader s
                        in if \<not> ok then (False, logFile_close s)
                           else if logFile s = None then (False, s)
                           else (True, s\<lparr>currentFileSize := logFile_size s,
                                          frameSequence := 0\<rparr>))))"

text \<open>
  \<open>initializeSDCard\<close> probes the card (\<open>SD.begin\<close>, card type, a test file written and
  removed again): one call that can fail, with no lasting change to the files.
\<close>

definition initializeSDCard :: "logger \<Rightarrow> bool \<times> logger" where
  "initializeSDCard s = io_next s"

text \<open>
  \<open>writeCANMessage\<close>, in the blocks of the source. The result is \<open>None\<close> where the
  firmware would read outside \<open>frame.data\<close>.
\<close>

definition writeCANMessage_recover :: "platform \<Rightarrow> logger \<Rightarrow> bool \<times> logger" where
  \<comment> \<open>lines 1325-1333: the card is not ready\<close>
  "writeCANMessage_recover P s =
     (if \<not> sdCardReady s
      then (let (inited, s) = initializeSDCard s
            in if \<not> inited then (False, s\<lparr>sdCardReady := False\<rparr>)
               else (let (created, s) = createNewLogFile P s
                     in if \<not> created then (False, s\<lparr>sdCardReady := False\<rparr>)
                        else (True, s\<lparr>sdCardReady := True\<rparr>)))
      else (True, s))"

definition writeCANMessage_ensure :: "platform \<Rightarrow> logger \<Rightarrow> bool \<times> logger" where
  \<comment> \<open>lines 1334-1340: no log file is open\<close>
  "writeCANMessage_ensure P s =
     (if logFile s = None
      then (let (created, s) = createNewLogFile P s
            in if \<not> created then (False, s\<lparr>sdCardReady := False\<rparr>)
               else (True, s))
      else (True, s))"

definition writeCANMessage_flush :: "logger \<Rightarrow> logger" where
  \<comment> \<open>lines 1422-1443: the counters kept after a written line\<close>
  "writeCANMessage_flush s =
     (let s = s\<lparr>writeCount := writeCount s + 1\<rparr>;
          s = s\<lparr>flushCounter := flushCounter s + 1\<rparr>;
          s = (if earlyFlushCount s < 5 then s\<lparr>earlyFlushCount := earlyFlushCount s + 1\<rparr> else s)
      in if flushCounter s \<ge> FLUSH_INTERVAL then s\<lparr>flushCounter := 0\<rparr> else s)"

definition writeCANMessage ::
  "platform \<Rightarrow> CanFrame \<Rightarrow> int \<Rightarrow> u32 \<Rightarrow> logger \<Rightarrow> (bool \<times> logger) option" where
  "writeCANMessage P frame timestamp us s =
     (let (ok, s) = writeCANMessage_recover P s
      in if \<not> ok then Some (False, s)
         else (let (ok, s) = writeCANMessage_ensure P s
               in if \<not> ok then Some (False, s)
                  else (case csv_line (format_timeStr P timestamp) timestamp us frame (sens s) of
                          None \<Rightarrow> None
                        | Some line \<Rightarrow>
                            (let (written, s) = writeEncryptedLine line s
                             in if \<not> written then Some (False, s)
                                else Some (True, writeCANMessage_flush s)))))"



text \<open>
  \<open>handleFileDownload\<close>, as far as the log file is concerned: the request's \<open>file\<close>
  argument (empty when absent) is resolved to a path and the file is opened for reading;
  when that fails for the active log file, the log file is closed, the read is tried again
  and, after the transfer, the log file is opened again with \<open>FILE_WRITE\<close>, positioned at
  its size, and \<open>currentFileSize\<close> is set to that size. The response is the status code
  and the bytes of the body (the text of \<open>server.send\<close> for an error, the bytes of the
  file otherwise); a client that disconnects during the transfer is not modelled.
\<close>

fun has_dotdot :: "string \<Rightarrow> bool" where
  "has_dotdot (a # b # rest) = ((a = CHR ''.'' \<and> b = CHR ''.'') \<or> has_dotdot (b # rest))"
| "has_dotdot _ = False"

definition startsWith :: "string \<Rightarrow> string \<Rightarrow> bool" where
  "startsWith str pre = (take (length pre) str = pre)"

definition download_path :: "string \<Rightarrow> logger \<Rightarrow> string" where
  "download_path fileName s =
     (if startsWith fileName ''/'' then fileName
      else if startsWith fileName ''CAN_Logged_Data/'' then ''/'' @ fileName
      else (let filePath = ''/CAN_Logged_Data/'' @ fileName
            in if files s filePath \<noteq> None then filePath else ''/'' @ fileName))"

definition download_open :: "string \<Rightarrow> bool \<Rightarrow> logger \<Rightarrow> (string \<times> nat) option \<times> bool \<times> logger" where
  \<comment> \<open>lines 2324-2333: the file opened for reading, and \<open>reopenAfterDownload\<close>\<close>
  "download_open filePath isActiveFile s =
     (let (file, s) = SD_open_read filePath s
      in if file = None \<and> isActiveFile \<and> logFile s \<noteq> None
         then (let s = logFile_close s;
                   (file, s) = SD_open_read filePath s
               in (file, True, s))
         else (file, False, s))"

definition download_reopen :: "platform \<Rightarrow> logger \<Rightarrow> logger" where
  \<comment> \<open>lines 2381-2390: the log file opened again after the transfer\<close>
  "download_reopen P s =
     (let (h, s) = SD_open_write P (currentLogFileName s) s;
          s = s\<lparr>logFile := h\<rparr>
      in if logFile s \<noteq> None
         then (let s = logFile_seek (logFile_size s) s
               in s\<lparr>currentFileSize := logFile_size s\<rparr>)
         else s\<lparr>sdCardReady := False\<rparr>)"

definition handleFileDownload ::
  "platform \<Rightarrow> string \<Rightarrow> logger \<Rightarrow> (nat \<times> byte list) \<times> logger" where
  "handleFileDownload P fileName s =
     (if \<not> sdCardReady s then ((503, map byte_of_char ''SD Card not available''), s)
      else if length fileName = 0 then ((400, map byte_of_char ''File name required''), s)
      else if has_dotdot fileName then ((403, map byte_of_char ''Invalid file name''), s)
      else
        (let filePath = download_path fileName s;
             normalizedFilePath = (if startsWith filePath ''/'' then filePath else ''/'' @ filePath);
             currentPath = (if startsWith (currentLogFileName s) ''/'' then currentLogFileName s
                            else ''/'' @ currentLogFileName s);
             isActiveFile = (length (currentLogFileName s) > 0 \<and> normalizedFilePath = currentPath);
             (file, reopenAfterDownload, s) = download_open filePath isActiveFile s
         in if file = None then ((404, map byte_of_char (''File not found: '' @ filePath)), s)
            else
              (let body = (case files s filePath of None \<Rightarrow> [] | Some content \<Rightarrow> content);
                   s = (if reopenAfterDownload then download_reopen P s else s)
               in ((200, body), s))))"

subsection \<open>The plain-text writer with a size limit (Lastry.ino)\<close>

record lastry = storage +
  loggingEnabled :: bool
  stoppedByUser :: bool

definition MAX_FILE_SIZE_Lastry :: u32 where
  "MAX_FILE_SIZE_Lastry = 10485760"

text \<open>
  \<open>writePlainLine\<close>. \<open>logFile.println(line)\<close> is two writes, the characters of the line
  and then \<open>"\r\n"\<close>, and returns the number of bytes the two have written.
\<close>

definition writePlainLine :: "string \<Rightarrow> lastry \<Rightarrow> bool \<times> lastry" where
  "writePlainLine line s =
     (if logFile s = None then (False, s)
      else (let (ok, s) = logFile_write_buf (map byte_of_char line) s;
                written = (if ok then length line else 0);
                (ok, s) = logFile_write_buf [0x0D, 0x0A] s;
                written = written + (if ok then 2 else 0)
            in if written = 0 then (False, s)
               else (True, s\<lparr>currentFileSize := currentFileSize s + of_nat written\<rparr>)))"

definition closeCurrentFile_Lastry :: "lastry \<Rightarrow> lastry" where
  "closeCurrentFile_Lastry s = (if logFile s \<noteq> None then logFile_close s else s)"

text \<open>The line of this variant: no sensor columns, and the length is not clamped.\<close>

definition csv_line_Lastry :: "string \<Rightarrow> int \<Rightarrow> u32 \<Rightarrow> CanFrame \<Rightarrow> string option" where
  "csv_line_Lastry timeStr timestamp us frame =
     (let line = csv_time_fields timeStr timestamp us @ '','';
          idStr = toUpperCase (String_num (unat (identifier_f frame)) 16);
          line = line @ idStr;
          line = line @ '','' @ (if extd frame then ''1'' else ''0'');
          line = line @ '','' @ (if rtr frame then ''1'' else ''0'');
          line = line @ '','' @ String_num (unat (data_length_code frame)) 10
      in data_columns_loop frame (unat (data_length_code frame)) 0 line)"

text \<open>
  \<open>writeCANMessage\<close> of Lastry.ino: beyond \<open>MAX_FILE_SIZE\<close> it stops logging and closes
  the file.
\<close>

definition writeCANMessage_Lastry ::
  "platform \<Rightarrow> CanFrame \<Rightarrow> int \<Rightarrow> u32 \<Rightarrow> lastry \<Rightarrow> (bool \<times> lastry) option" where
  "writeCANMessage_Lastry P frame timestamp us s =
     (if logFile s = None \<or> \<not> sdCardReady s then Some (False, s)
      else if currentFileSize s > MAX_FILE_SIZE_Lastry
      then Some (False,
                 closeCurrentFile_Lastry (s\<lparr>loggingEnabled := False, stoppedByUser := True\<rparr>))
      else (case csv_line_Lastry (format_timeStr P timestamp) timestamp us frame of
              None \<Rightarrow> None
            | Some line \<Rightarrow>
                (let (ok, s) = writePlainLine line s
                 in if \<not> ok then Some (False, s) else Some (True, s))))"

text \<open>
  Concrete platforms and states for the examples: a calendar that reads 2026-01-29
  12:00:01 for every time, and a Lastry writer whose open file has passed the 10 MB limit.
\<close>

definition tm_example :: tm where
  "tm_example = \<lparr>tm_year = 126, tm_mon = 0, tm_mday = 29, tm_hour = 12, tm_min = 0, tm_sec = 1\<rparr>"

definition platform_truncating :: platform where
  "platform_truncating = \<lparr>FILE_WRITE = OpenTruncate, localtime = (\<lambda>t. tm_example)\<rparr>"

definition platform_appending :: platform where
  "platform_appending = \<lparr>FILE_WRITE = OpenAppend, localtime = (\<lambda>t. tm_example)\<rparr>"

definition lastry_full :: lastry where
  "lastry_full =
     \<lparr>liveFrameBuffer = replicate LIVE_BUFFER_SIZE LiveFrame_zero, liveFrameCounter = 0,
      logFile = Some (''/CAN_LOG_20260129_120001.csv'', 10485761),
      currentLogFileName = ''/CAN_LOG_20260129_120001.csv'',
      currentFileSize = 10485761, sdCardReady = True, baseTime = 1769678401,
      files = [''/CAN_LOG_20260129_120001.csv'' \<mapsto> replicate 10485761 0x30],
      io_plan = [], loggingEnabled = True, stoppedByUser = False\<rparr>"

text \<open>The bytes of a line and its newline, as \<open>writeEncryptedLine\<close> encrypts them.\<close>

definition line_bytes :: "string \<Rightarrow> byte list" where
  "line_bytes line = map byte_of_char line @ [byte_of_char CHR 0x0A]"

text \<open>
  A logger in the middle of a recording: the card is ready and the log file, open at its
  end, holds the 16-byte header of nonce \<open>0x12345678\<close>. The next call of the card fails.
\<close>

definition logger_recording :: logger where
  "logger_recording =
     \<lparr>liveFrameBuffer = replicate LIVE_BUFFER_SIZE LiveFrame_zero, liveFrameCounter = 0,
      logFile = Some (''/CAN_Logged_Data/CAN_LOG_20260129_120001.NXT'', 16),
      currentLogFileName = ''/CAN_Logged_Data/CAN_LOG_20260129_120001.NXT'',
      currentFileSize = 16, sdCardReady = True, baseTime = 0,
      files = [''/CAN_Logged_Data/CAN_LOG_20260129_120001.NXT'' \<mapsto> nxt_header 0x12345678],
      io_plan = [False],
      currentFileNonce = 0x12345678,
      currentCipherState = resetCipherState ENCRYPTION_KEY 0x12345678,
      flushCounter = 0, frameSequence = 0, writeCount = 0, earlyFlushCount = 0,
      messageCount = 0, bootMillis = 0, folder_exists = True,
      entropy = [(0x1111, 0x2222, 0x3333), (0x4444, 0x5555, 0x6666)],
      sens = sensors_boot\<rparr>"

text \<open>The line of \<open>frame_123\<close> at time 0 with the sensors as at boot.\<close>

definition line_123 :: string where
  "line_123 =
     ''2026-01-29 12:00:01,0,0,123,0,0,3,AB,CD,EF,00,00,00,00,00''
     @ '',0.0000,0.0000,0.0000,0.0000,0,0,0,0,0,0,0,0''"

text \<open>
  A logger further into the recording: the log file holds \<open>log_so_far\<close>, the header,
  the column line and one record, and the next call of the card fails. \<open>logger_dropped\<close> is that logger after
  the write of \<open>line_123\<close> has failed at its first byte.
\<close>

definition log_so_far :: "byte list" where
  "log_so_far =
     nxt_header 0x12345678
     @ fst (encryptBytes ENCRYPTION_KEY (resetCipherState ENCRYPTION_KEY 0x12345678)
              (line_bytes headerLine @ line_bytes line_123))"

definition logger_logging :: logger where
  "logger_logging =
     logger_recording
       \<lparr>logFile := Some (''/CAN_Logged_Data/CAN_LOG_20260129_120001.NXT'', length log_so_far),
        files := [''/CAN_Logged_Data/CAN_LOG_20260129_120001.NXT'' \<mapsto> log_so_far],
        currentFileSize := of_nat (length log_so_far),
        currentCipherState :=
          snd (encryptBytes ENCRYPTION_KEY (resetCipherState ENCRYPTION_KEY 0x12345678)
                 (line_bytes headerLine @ line_bytes line_123))\<rparr>"


section \<open>What a file holds after the writer has opened it\<close>

text \<open>
  The terms in which the results on \<open>createNewLogFile\<close> and on the reopening after a
  download are stated: the bytes of a file (none for a missing file); the bytes it holds
  right after \<open>SD.open(path, FILE_WRITE)\<close>; the nonce that the next \<open>writeFileHeader\<close>
  draws; and the bytes that \<open>writeFileHeader\<close> writes for a nonce, the 16-byte header
  and the encrypted column line.
\<close>

definition file_content :: "'a storage_scheme \<Rightarrow> string \<Rightarrow> byte list" where
  "file_content s path = (case files s path of None \<Rightarrow> [] | Some c \<Rightarrow> c)"

definition opened_content :: "platform \<Rightarrow> 'a storage_scheme \<Rightarrow> string \<Rightarrow> byte list" where
  "opened_content P s path =
     (case FILE_WRITE P of OpenTruncate \<Rightarrow> [] | OpenAppend \<Rightarrow> file_content s path)"

definition next_nonce :: "logger \<Rightarrow> u32" where
  "next_nonce s =
     (let (rnd, ms, ms') = (case entropy s of [] \<Rightarrow> (0, 0, 0) | e # _ \<Rightarrow> e)
      in generateFileNonce rnd ms ms' (bootMillis s))"

definition new_file_bytes :: "u32 \<Rightarrow> byte list" where
  "new_file_bytes nonce =
     nxt_header nonce
     @ fst (encryptBytes ENCRYPTION_KEY (resetCipherState ENCRYPTION_KEY nonce)
              (line_bytes headerLine))"

section \<open>Properties of the stream cipher\<close>

lemma resetCipherState_loop_foldl:
  "i \<le> 16 \<Longrightarrow> length key = 16 \<Longrightarrow>
   resetCipherState_loop key i st =
     foldl (\<lambda>state k. state * 1664525 + 1013904223 + ucast k) st (drop i key)"
proof (induction key i st rule: resetCipherState_loop.induct)
  case (1 key i st)
  show ?case
  proof (cases "i < 16")
    case True
    then have d: "drop i key = key ! i # drop (i + 1) key"
      using 1(3) by (simp add: Cons_nth_drop_Suc)
    from True 1 show ?thesis
      by (subst resetCipherState_loop.simps) (simp add: d)
  next
    case False
    with 1 show ?thesis by (simp add: resetCipherState_loop.simps)
  qed
qed

lemma stream_byte_ucast:
  "(ucast ((drop_bit 24 (st::u32)) AND 0xFF) :: byte) = ucast (drop_bit 24 st)"
proof -
  have m: "(0xFF::u32) = mask 8" by (simp add: mask_eq_exp_minus_1)
  show ?thesis unfolding m by (rule bit_word_eqI) (auto simp: bit_simps)
qed

lemma encryptByte_spec:
  "encryptByte key st b = (b XOR spec_keystream_byte key (spec_lcg st), spec_lcg st)"
  by (simp add: encryptByte_def spec_keystream_byte_def spec_lcg_def Let_def stream_byte_ucast)

lemma encryptBytes_length: "length (fst (encryptBytes key st bs)) = length bs"
  by (induction bs arbitrary: st) (simp_all add: split_def Let_def)

lemma encryptBytes_snd: "snd (encryptBytes key st bs) = (spec_lcg ^^ length bs) st"
  by (induction bs arbitrary: st)
     (simp_all add: split_def Let_def encryptByte_spec funpow_swap1)

lemma encryptBytes_nth:
  "n < length bs \<Longrightarrow>
   fst (encryptBytes key st bs) ! n =
     bs ! n XOR spec_keystream_byte key (spec_lcg ((spec_lcg ^^ n) st))"
proof (induction bs arbitrary: st n)
  case Nil
  then show ?case by simp
next
  case (Cons b bs)
  show ?case
  proof (cases n)
    case 0
    then show ?thesis by (simp add: split_def Let_def encryptByte_spec)
  next
    case (Suc m)
    with Cons.prems have "m < length bs" by simp
    from Cons.IH [OF this, of "spec_lcg st"] Suc show ?thesis
      by (simp add: split_def Let_def encryptByte_spec funpow_swap1)
  qed
qed

lemma encryptBytes_append:
  "encryptBytes key st (xs @ ys) =
     (fst (encryptBytes key st xs) @ fst (encryptBytes key (snd (encryptBytes key st xs)) ys),
      snd (encryptBytes key (snd (encryptBytes key st xs)) ys))"
  by (induction xs arbitrary: st) (simp_all add: split_def Let_def)

text \<open>
  Claim C1. The cipher is the specified algorithm: \<open>resetCipherState\<close> is the fold of
  \<open>state * 1664525 + 1013904223 + key[i]\<close> over the 16 key bytes from
  \<open>nonce XOR 0xA5A5A5A5\<close>; \<open>encryptByte\<close> advances the state by the linear-congruential
  step and XORs the input with \<open>(state >> 24) XOR key[state & 0x0F]\<close>; and the \<open>n\<close>-th
  byte written for a plaintext \<open>P\<close> is \<open>P[n]\<close> XOR a keystream byte that depends on the
  nonce, the key and \<open>n\<close> only.
\<close>

theorem cipher_is_specified_algorithm:
  assumes "length key = 16" and "n < length P"
  shows "resetCipherState key nonce = spec_initialize key nonce
       \<and> encryptByte key st b = (b XOR spec_keystream_byte key (spec_lcg st), spec_lcg st)
       \<and> fst (encryptBytes key (resetCipherState key nonce) P) ! n
           = P ! n XOR spec_keystream key nonce n"
proof -
  have r: "resetCipherState key nonce = spec_initialize key nonce"
    using assms(1)
    by (simp add: resetCipherState_def spec_initialize_def resetCipherState_loop_foldl)
  show ?thesis
    using assms(2)
    by (simp add: r encryptByte_spec encryptBytes_nth spec_keystream_def spec_state_def)
qed

theorem cipher_is_specified_algorithm_witness:
  "length ENCRYPTION_KEY = 16 \<and> (2::nat) < length [1, 2, 3 :: byte]
   \<and> resetCipherState ENCRYPTION_KEY 0x12345678 = spec_initialize ENCRYPTION_KEY 0x12345678
   \<and> fst (encryptBytes ENCRYPTION_KEY (resetCipherState ENCRYPTION_KEY 0x12345678) [1, 2, 3]) ! 2
       = [1, 2, 3] ! 2 XOR spec_keystream ENCRYPTION_KEY 0x12345678 2
   \<and> spec_keystream ENCRYPTION_KEY 0x12345678 2 = 255
   \<and> fst (encryptBytes ENCRYPTION_KEY (resetCipherState ENCRYPTION_KEY 0x12345678) [1, 2, 3])
       = [98, 182, 252]"
proof -
  have h1: "length ENCRYPTION_KEY = 16" by (simp add: ENCRYPTION_KEY_def)
  have h2: "(2::nat) < length [1, 2, 3 :: byte]" by simp
  note t = cipher_is_specified_algorithm [OF h1 h2, of "0x12345678" 0 0]
  have v: "spec_keystream ENCRYPTION_KEY 0x12345678 2 = 255" by code_simp
  have w: "fst (encryptBytes ENCRYPTION_KEY (resetCipherState ENCRYPTION_KEY 0x12345678) [1, 2, 3])
       = [98, 182, 252]" by code_simp
  show ?thesis using h1 h2 t v w by blast
qed

lemma encryptBytes_involution:
  "fst (encryptBytes key st (fst (encryptBytes key st bs))) = bs"
  by (induction bs arbitrary: st)
     (simp_all add: split_def Let_def encryptByte_spec word_bw_assocs)

text \<open>
  Claim C2. Encrypting and decrypting are the same operation: running the byte loop
  over its own output, from the same initialised cipher state, gives the plaintext back,
  for every nonce, key and plaintext.
\<close>

theorem encrypt_round_trip:
  "fst (encryptBytes key (resetCipherState key nonce)
          (fst (encryptBytes key (resetCipherState key nonce) P))) = P"
  by (rule encryptBytes_involution)

section \<open>Properties of the live ring buffer\<close>

lemma array_set_Some [simp]: "i < length xs \<Longrightarrow> array_set xs i v = Some (xs[i := v])"
  by (simp add: array_set_def)

lemma array_get_Some [simp]: "i < length xs \<Longrightarrow> array_get xs i = Some (xs ! i)"
  by (simp add: array_get_def)

lemma copy_payload_loop_result:
  "length (data frame) = 8 \<Longrightarrow> length d = 8 \<Longrightarrow>
   copy_payload_loop frame i d =
     Some (map (\<lambda>j. if i \<le> j \<and> j < unat (data_length_code frame) then data frame ! j else d ! j)
             [0..<8])"
proof (induction frame i d rule: copy_payload_loop.induct)
  case (1 frame i d)
  show ?case
  proof (cases "i < unat (data_length_code frame) \<and> i < 8")
    case True
    then have "copy_payload_loop frame i d = copy_payload_loop frame (i + 1) (d[i := data frame ! i])"
      using 1(2,3) by (subst copy_payload_loop.simps) simp
    also have "\<dots> = Some (map (\<lambda>j. if i + 1 \<le> j \<and> j < unat (data_length_code frame)
                                   then data frame ! j else d[i := data frame ! i] ! j) [0..<8])"
      using True 1(2,3) by (intro 1(1)) (simp_all add: array_get_def array_set_def)
    also have "\<dots> = Some (map (\<lambda>j. if i \<le> j \<and> j < unat (data_length_code frame)
                                   then data frame ! j else d ! j) [0..<8])"
      using True 1(3) by (auto simp: nth_list_update)
    finally show ?thesis .
  next
    case False
    then have "copy_payload_loop frame i d = Some d"
      by (subst copy_payload_loop.simps) auto
    moreover have "d = map (\<lambda>j. if i \<le> j \<and> j < unat (data_length_code frame)
                                   then data frame ! j else d ! j) [0..<8]"
      using False 1(3) by (intro nth_equalityI) auto
    ultimately show ?thesis by simp
  qed
qed

lemma zero_fill_loop_result:
  "length d = 8 \<Longrightarrow>
   zero_fill_loop i d = Some (map (\<lambda>j. if i \<le> j then 0 else d ! j) [0..<8])"
proof (induction i d rule: zero_fill_loop.induct)
  case (1 i d)
  show ?case
  proof (cases "i < 8")
    case True
    then have "zero_fill_loop i d = zero_fill_loop (i + 1) (d[i := 0])"
      using 1(2) by (subst zero_fill_loop.simps) simp
    also have "\<dots> = Some (map (\<lambda>j. if i + 1 \<le> j then 0 else d[i := 0] ! j) [0..<8])"
      using True 1(2) by (intro 1(1)) (simp_all add: array_set_def)
    also have "\<dots> = Some (map (\<lambda>j. if i \<le> j then 0 else d ! j) [0..<8])"
      using True 1(2) by (auto simp: nth_list_update)
    finally show ?thesis .
  next
    case False
    then have "zero_fill_loop i d = Some d"
      by (subst zero_fill_loop.simps) simp
    moreover have "d = map (\<lambda>j. if i \<le> j then 0 else d ! j) [0..<8]"
      using False 1(2) by (intro nth_equalityI) auto
    ultimately show ?thesis by simp
  qed
qed

lemma payload_loops:
  assumes "length (data frame) = 8" "length d = 8"
  shows "(case copy_payload_loop frame 0 d of None \<Rightarrow> None
          | Some d1 \<Rightarrow> zero_fill_loop (unat (data_length_code frame)) d1)
         = Some (slot_payload frame)"
proof -
  let ?d1 = "map (\<lambda>j. if 0 \<le> j \<and> j < unat (data_length_code frame) then data frame ! j else d ! j) [0..<8]"
  have 1: "copy_payload_loop frame 0 d = Some ?d1"
    using assms by (rule copy_payload_loop_result)
  have 2: "zero_fill_loop (unat (data_length_code frame)) ?d1
      = Some (map (\<lambda>j. if unat (data_length_code frame) \<le> j then 0 else ?d1 ! j) [0..<8])"
    by (rule zero_fill_loop_result) simp
  have 3: "map (\<lambda>j. if unat (data_length_code frame) \<le> j then 0 else ?d1 ! j) [0..<8] = slot_payload frame"
    unfolding slot_payload_def by (rule map_cong[OF refl]) auto
  show ?thesis by (simp only: 1 2 3 option.case)
qed


lemma LiveFrame_overwrite:
  "(r::LiveFrame)\<lparr>seq := a, unixTime := b, micros := c, timeText := d, identifier_l := e,
       extended := f, rtr_l := g, dlc := h, data_l := i\<rparr>
   = \<lparr>seq = a, unixTime = b, micros = c, timeText = d, identifier_l = e,
       extended = f, rtr_l = g, dlc = h, data_l = i\<rparr>"
  by (cases r) simp

lemma storeLiveFrame_result:
  assumes "live_ok s" and "CanFrame_ok frame"
  shows "storeLiveFrame frame timestamp us formattedTime s =
           Some (s\<lparr>liveFrameBuffer :=
                     (liveFrameBuffer s)
                       [unat (liveFrameCounter s) mod 200 :=
                          live_slot frame timestamp us formattedTime (liveFrameCounter s + 1)],
                   liveFrameCounter := liveFrameCounter s + 1\<rparr>)"
proof -
  let ?idx = "unat (liveFrameCounter s) mod 200"
  have idx: "unat ((liveFrameCounter s + 1 - 1) mod 200) = ?idx"
    by (simp add: unat_mod)
  have len: "length (liveFrameBuffer s) = 200"
    using assms(1) by (simp add: live_ok_def LIVE_BUFFER_SIZE_def)
  then have lt: "?idx < length (liveFrameBuffer s)" by simp
  have "liveFrameBuffer s ! ?idx \<in> set (liveFrameBuffer s)"
    using lt by (rule nth_mem)
  then have dl: "length (data_l (liveFrameBuffer s ! ?idx)) = 8"
    using assms(1) by (simp add: live_ok_def list_all_iff)
  have fl: "length (data frame) = 8"
    using assms(2) by (simp add: CanFrame_ok_def)
  note pl = payload_loops [OF fl dl]
  show ?thesis
    unfolding storeLiveFrame_def Let_def idx array_get_Some [OF lt] option.case
    using pl by (auto simp: live_slot_def LiveFrame_overwrite split: option.splits)
qed

lemma unat_of_nat32: "n < 2 ^ 32 \<Longrightarrow> unat (of_nat n :: u32) = n"
  by (simp add: unat_of_nat)

lemma slot_index_nat:
  "1 \<le> unat (w::u32) \<Longrightarrow> unat ((w - 1) mod 200) = (unat w - 1) mod 200"
  by (simp add: unat_mod unat_sub word_le_nat_alt)

lemma live_loop_stop:
  "\<not> (sq \<le> latest \<and> added < limit) \<Longrightarrow> live_loop buf latest limit sq added out = Some out"
  by (subst live_loop.simps) auto

lemma live_loop_step:
  assumes "sq \<le> latest" "added < limit" "unat ((sq - 1) mod 200) < length buf"
    and "seq (buf ! unat ((sq - 1) mod 200)) = sq"
  shows "live_loop buf latest limit sq added out =
           live_loop buf latest limit (sq + 1) (added + 1) (out @ [buf ! unat ((sq - 1) mod 200)])"
  using assms by (subst live_loop.simps) (simp add: array_get_def)

lemma live_loop_skip:
  assumes "sq \<le> latest" "added < limit" "unat ((sq - 1) mod 200) < length buf"
    and "seq (buf ! unat ((sq - 1) mod 200)) \<noteq> sq"
  shows "live_loop buf latest limit sq added out =
           live_loop buf latest limit (sq + 1) added out"
  using assms by (subst live_loop.simps) (simp add: array_get_def)

lemma live_loop_window:
  fixes n :: nat
  assumes n: "n < 2 ^ 32" and len: "length buf = 200" and mn: "m \<le> n"
    and inv: "\<forall>j<m. seq (buf ! ((n - 1 - j) mod 200)) = of_nat (n - j)"
  shows "j < m \<Longrightarrow> n < 2 ^ 32 - 1 \<or> limit - added \<le> int (j + 1) \<Longrightarrow>
         live_loop buf (of_nat n) limit (of_nat (n - j)) added out =
           Some (out @ take (nat (limit - added)) (map (\<lambda>i. buf ! (i mod 200)) [n - 1 - j ..< n]))"
proof (induction j arbitrary: added out)
  case 0
  let ?L = "of_nat n :: u32"
  from 0 mn have n1: "1 \<le> n" by simp
  have uL: "unat ?L = n" using n by (rule unat_of_nat32)
  have idx: "unat ((?L - 1) mod 200) = (n - 1) mod 200"
    using n1 uL by (simp add: unat_mod unat_sub word_le_nat_alt)
  have sq: "seq (buf ! ((n - 1) mod 200)) = ?L"
    using inv 0(1) by force
  show ?case
  proof (cases "added < limit")
    case True
    have "live_loop buf ?L limit ?L added out
          = live_loop buf ?L limit (?L + 1) (added + 1) (out @ [buf ! ((n - 1) mod 200)])"
      using live_loop_step [of ?L ?L added limit buf out] True len sq idx by simp
    also have "\<dots> = Some (out @ [buf ! ((n - 1) mod 200)])"
    proof (rule live_loop_stop)
      show "\<not> (?L + 1 \<le> ?L \<and> added + 1 < limit)"
      proof (cases "n < 2 ^ 32 - 1")
        case True
        then have "unat (?L + 1) = n + 1"
          using uL by (simp add: unat_word_ariths)
        then show ?thesis using uL by (simp add: word_le_nat_alt)
      next
        case False
        with 0(2) show ?thesis by simp
      qed
    qed
    finally show ?thesis using True n1 by (simp add: upt_rec [of "n - Suc 0" n])
  next
    case False
    then show ?thesis by (simp add: live_loop_stop)
  qed
next
  case (Suc j)
  let ?L = "of_nat n :: u32"
  let ?sq = "of_nat (n - Suc j) :: u32"
  from Suc(2) mn have jn: "Suc j < n" "j < m" by simp_all
  have uL: "unat ?L = n" using n by (rule unat_of_nat32)
  have usq: "unat ?sq = n - Suc j" using n by (intro unat_of_nat32) simp
  have le: "?sq \<le> ?L" unfolding word_le_nat_alt uL usq by simp
  have "1 \<le> unat ?sq" unfolding usq using jn by simp
  from slot_index_nat [OF this]
  have idx: "unat ((?sq - 1) mod 200) = (n - 1 - Suc j) mod 200"
    unfolding usq by (simp only: diff_commute)
  have sq: "seq (buf ! ((n - 1 - Suc j) mod 200)) = ?sq"
    using inv Suc(2) by blast
  have e: "n - j = Suc (n - Suc j)" using jn by simp
  have nxt: "?sq + 1 = of_nat (n - j)"
    unfolding e of_nat_Suc by (simp only: add.commute)
  show ?case
  proof (cases "added < limit")
    case True
    have "live_loop buf ?L limit ?sq added out
          = live_loop buf ?L limit (?sq + 1) (added + 1) (out @ [buf ! ((n - 1 - Suc j) mod 200)])"
      using live_loop_step [of ?sq ?L added limit buf out] True len sq idx le by simp
    also have "\<dots> = Some ((out @ [buf ! ((n - 1 - Suc j) mod 200)]) @
        take (nat (limit - (added + 1))) (map (\<lambda>i. buf ! (i mod 200)) [n - 1 - j ..< n]))"
      unfolding nxt using Suc(3) jn by (intro Suc.IH) auto
    also have "\<dots> = Some (out @ take (nat (limit - added))
         (map (\<lambda>i. buf ! (i mod 200)) [n - 1 - Suc j ..< n]))"
    proof -
      have u: "[n - 1 - Suc j ..< n] = (n - 1 - Suc j) # [n - 1 - j ..< n]"
        using jn by (subst upt_rec) (simp add: Suc_diff_Suc)
      have "nat (limit - added) = Suc (nat (limit - (added + 1)))"
        using True by simp
      then show ?thesis unfolding u by simp
    qed
    finally show ?thesis .
  next
    case False
    then show ?thesis by (simp add: live_loop_stop)
  qed
qed

lemma live_ok_boot: "live_ok live_boot"
  by (simp add: live_ok_def live_boot_def LiveFrame_zero_def list_all_iff)

lemma live_inv_boot: "live_inv live_boot"
  using live_ok_boot by (simp add: live_inv_def) (simp add: live_boot_def)

lemma slot_payload_length: "length (slot_payload frame) = 8"
  by (simp add: slot_payload_def)

lemma live_ok_store:
  assumes "live_ok s" and "CanFrame_ok frame"
    and "storeLiveFrame frame timestamp us formattedTime s = Some s'"
  shows "live_ok s'"
proof -
  from assms(3) have s': "s' = s\<lparr>liveFrameBuffer :=
                     (liveFrameBuffer s)
                       [unat (liveFrameCounter s) mod 200 :=
                          live_slot frame timestamp us formattedTime (liveFrameCounter s + 1)],
                   liveFrameCounter := liveFrameCounter s + 1\<rparr>"
    unfolding storeLiveFrame_result [OF assms(1,2)] by simp
  have "length (data_l x) = 8"
    if "x \<in> set ((liveFrameBuffer s)[i := live_slot frame timestamp us formattedTime sq])" for x i sq
  proof -
    from that set_update_subset_insert [of "liveFrameBuffer s" i]
    have "x = live_slot frame timestamp us formattedTime sq \<or> x \<in> set (liveFrameBuffer s)"
      by blast
    then show ?thesis
      using assms(1) by (auto simp: live_ok_def list_all_iff live_slot_def slot_payload_length)
  qed
  then show ?thesis
    using assms(1) unfolding s' by (simp add: live_ok_def list_all_iff)
qed

lemma mod_200_distinct:
  fixes n j :: nat
  assumes "0 < j" "j < 200" "j \<le> n"
  shows "(n - j) mod 200 \<noteq> n mod 200"
proof
  assume "(n - j) mod 200 = n mod 200"
  then have "n mod 200 = (n - j) mod 200" by simp
  then have "200 dvd n - (n - j)"
    by (subst (asm) mod_eq_dvd_iff_nat) simp_all
  then have "200 dvd j" using assms(3) by simp
  then show False using assms(1,2) by (auto dest: dvd_imp_le)
qed

lemma live_inv_store:
  assumes inv: "live_inv s" and ok: "CanFrame_ok frame"
    and st: "storeLiveFrame frame timestamp us formattedTime s = Some s'"
  shows "live_inv s'"
proof -
  let ?L = "liveFrameCounter s"
  let ?n = "unat ?L"
  let ?new = "live_slot frame timestamp us formattedTime (?L + 1)"
  from inv have lok: "live_ok s" by (simp add: live_inv_def)
  from st have s': "s' = s\<lparr>liveFrameBuffer := (liveFrameBuffer s)[?n mod 200 := ?new],
                              liveFrameCounter := ?L + 1\<rparr>"
    unfolding storeLiveFrame_result [OF lok ok] by simp
  have ok': "live_ok s'" using lok ok st by (rule live_ok_store)
  have len: "length (liveFrameBuffer s) = 200"
    using lok by (simp add: live_ok_def LIVE_BUFFER_SIZE_def)
  have old: "seq (liveFrameBuffer s ! ((?n - 1 - j) mod 200)) = of_nat (?n - j)"
    if "j < min ?n 200" for j
    using inv that by (simp add: live_inv_def list_all_iff)
  show ?thesis
  proof (cases "?L + 1 = 0")
    case True
    then show ?thesis using ok' by (simp add: live_inv_def s')
  next
    case False
    then have un: "unat (?L + 1) = Suc ?n" using unatSuc [of ?L] by (simp add: add.commute)
    have step: "seq ((liveFrameBuffer s)[?n mod 200 := ?new] ! ((Suc ?n - 1 - j) mod 200))
            = of_nat (Suc ?n - j)"
      if j: "j < min (Suc ?n) 200" for j
    proof (cases j)
      case 0
      then show ?thesis using len by (simp add: live_slot_def)
    next
      case (Suc k)
      with j have k: "k < min ?n 200" "0 < j" "j < 200" "j \<le> ?n" by simp_all
      have e1: "Suc ?n - 1 - j = ?n - 1 - k" using Suc by simp
      have e2: "Suc ?n - j = ?n - k" using Suc by simp
      have "?n - j = ?n - 1 - k" using Suc by simp
      with mod_200_distinct [OF k(2-4)] have ne: "(?n - 1 - k) mod 200 \<noteq> ?n mod 200"
        by simp
      show ?thesis unfolding e1 e2 using ne old [OF k(1)] by simp
    qed
    have w: "list_all
        (\<lambda>j. seq ((liveFrameBuffer s)[?n mod 200 := ?new] ! ((Suc ?n - 1 - j) mod 200))
               = of_nat (Suc ?n - j)) [0..<min (Suc ?n) 200]"
      unfolding list_all_iff
    proof (intro ballI)
      fix j
      assume "j \<in> set [0..<min (Suc ?n) 200]"
      then have "j < min (Suc ?n) 200"
        by (simp only: set_upt atLeastLessThan_iff)
      then show "seq ((liveFrameBuffer s)[?n mod 200 := ?new] ! ((Suc ?n - 1 - j) mod 200))
            = of_nat (Suc ?n - j)"
        by (rule step)
    qed
    have b': "liveFrameBuffer s' = (liveFrameBuffer s)[?n mod 200 := ?new]"
      by (simp add: s')
    have c': "liveFrameCounter s' = ?L + 1"
      by (simp add: s')
    show ?thesis
      unfolding live_inv_def b' c' un using ok' w by (intro conjI)
  qed
qed

lemma live_inv_reachable:
  "live_inv s \<Longrightarrow> list_all (\<lambda>p. CanFrame_ok (fst p)) ps \<Longrightarrow>
   storeLiveFrames ps s = Some s' \<Longrightarrow> live_inv s'"
proof (induction ps arbitrary: s)
  case Nil
  then show ?case by simp
next
  case (Cons p ps)
  obtain frame timestamp us formattedTime where p: "p = (frame, timestamp, us, formattedTime)"
    by (cases p) auto
  from Cons.prems(2) p have ok: "CanFrame_ok frame" by simp
  from Cons.prems(3) p obtain s1 where
    s1: "storeLiveFrame frame timestamp us formattedTime s = Some s1"
    and rest: "storeLiveFrames ps s1 = Some s'"
    by (auto split: option.splits)
  have "live_inv s1" using Cons.prems(1) ok s1 by (rule live_inv_store)
  then show ?case using Cons.prems(2) rest by (intro Cons.IH) simp_all
qed

lemma live_limit_bounds: "1 \<le> live_limit limitArg \<and> live_limit limitArg \<le> 200"
  by (simp add: live_limit_def constrain_def LIVE_DEFAULT_LIMIT_def LIVE_BUFFER_SIZE_def
           split: option.splits)

lemma uint_unat_bound31: "uint (a::u32) < 2 ^ 31 \<Longrightarrow> unat a < 2 ^ 31"
  by transfer (simp add: nat_less_iff)

lemma live_since_bound: "unat (live_since sinceArg) < 2 ^ 31"
proof (cases sinceArg)
  case None
  then show ?thesis by (simp add: live_since_def)
next
  case (Some a)
  show ?thesis
  proof (cases "sint a > 0")
    case True
    moreover have lt: "sint a < 2 ^ 31"
      using sint_lt [of a] by simp
    ultimately have "take_bit 32 (sint a) = sint a"
      by (intro take_bit_int_eq_self) simp_all
    then have "uint a = sint a"
      using uint_sint [of a] by simp
    with lt have "uint a < 2 ^ 31" by simp
    then have "unat a < 2 ^ 31" by (rule uint_unat_bound31)
    then show ?thesis using Some True by (simp add: live_since_def)
  next
    case False
    then show ?thesis using Some by (simp add: live_since_def)
  qed
qed

lemma live_earliestSeq_nat:
  "unat (live_earliestSeq latest) = unat latest - min (unat latest) 200 + 1"
proof (cases "latest \<ge> 200")
  case True
  then have n: "200 \<le> unat latest" by (simp add: word_le_nat_alt)
  have "latest - 200 + 1 = latest - 199" by simp
  moreover have "unat (latest - 199) = unat latest - 199"
    using n by (simp add: unat_sub word_le_nat_alt)
  ultimately show ?thesis using True n by (simp add: live_earliestSeq_def)
next
  case False
  then have n: "unat latest < 200" by (simp add: word_le_nat_alt)
  then show ?thesis using False by (simp add: live_earliestSeq_def)
qed

lemma live_startSeq_clamped:
  assumes "since < live_earliestSeq latest" and "latest \<noteq> 0"
  shows "live_startSeq since latest = live_earliestSeq latest"
proof -
  let ?e = "live_earliestSeq latest"
  have e: "unat ?e = unat latest - min (unat latest) 200 + 1"
    by (rule live_earliestSeq_nat)
  have l0: "0 < unat latest" using assms(2) by (simp add: unat_gt_0)
  have le: "?e \<le> latest" unfolding word_le_nat_alt e using l0 by simp
  have s: "unat since < unat ?e" using assms(1) by (simp add: word_less_nat_alt)
  have "unat (since + 1) = unat since + 1"
    using s unsigned_less [of ?e, where 'a = nat] by (simp add: unat_word_ariths)
  then have s1: "since + 1 \<le> ?e" unfolding word_le_nat_alt using s by simp
  show ?thesis using le s1 by (auto simp: live_startSeq_def Let_def)
qed


lemma live_retained_length: "length (live_retained s) = min (unat (liveFrameCounter s)) 200"
  by (simp add: live_retained_def Let_def)

lemma live_loop_from_inv:
  assumes inv: "live_inv s" and j: "j < min (unat (liveFrameCounter s)) 200"
    and lim: "unat (liveFrameCounter s) < 2 ^ 32 - 1 \<or> limit \<le> int (j + 1)"
  shows "live_loop (liveFrameBuffer s) (liveFrameCounter s) limit
           (of_nat (unat (liveFrameCounter s) - j)) 0 [] =
         Some (take (nat limit)
                 (map (\<lambda>i. liveFrameBuffer s ! (i mod 200))
                    [unat (liveFrameCounter s) - 1 - j ..< unat (liveFrameCounter s)]))"
proof -
  let ?n = "unat (liveFrameCounter s)"
  have n: "?n < 2 ^ 32" using unsigned_less [of "liveFrameCounter s", where 'a = nat] by simp
  have len: "length (liveFrameBuffer s) = 200"
    using inv by (simp add: live_inv_def live_ok_def LIVE_BUFFER_SIZE_def)
  have w: "\<forall>j<min ?n 200. seq (liveFrameBuffer s ! ((?n - 1 - j) mod 200)) = of_nat (?n - j)"
    using inv by (simp add: live_inv_def list_all_iff)
  have lim': "?n < 2 ^ 32 - 1 \<or> limit - 0 \<le> int (j + 1)" using lim by simp
  from live_loop_window [OF n len _ w j lim', of "[]"]
  show ?thesis by simp
qed

lemma live_retained_seq:
  assumes inv: "live_inv s" and i: "i < length (live_retained s)"
  shows "seq (live_retained s ! i) = live_earliestSeq (liveFrameCounter s) + of_nat i"
proof -
  let ?n = "unat (liveFrameCounter s)"
  let ?m = "min ?n 200"
  from i have im: "i < ?m" by (simp add: live_retained_length)
  have w: "\<forall>j<?m. seq (liveFrameBuffer s ! ((?n - 1 - j) mod 200)) = of_nat (?n - j)"
    using inv by (simp add: live_inv_def list_all_iff)
  have k: "?n - ?m + i < ?n" using im by auto
  have "live_retained s ! i = liveFrameBuffer s ! ((?n - ?m + i) mod 200)"
    using im nth_upt [OF k] by (simp add: live_retained_def Let_def)
  also have "?n - ?m + i = ?n - 1 - (?m - 1 - i)" using im by simp
  also have "seq (liveFrameBuffer s ! ((?n - 1 - (?m - 1 - i)) mod 200)) = of_nat (?n - (?m - 1 - i))"
    using w im by (metis diff_less less_imp_diff_less zero_less_Suc diff_Suc_eq_diff_pred
        diff_diff_left plus_1_eq_Suc less_nat_zero_code not_gr_zero zero_less_diff)
  also have "?n - (?m - 1 - i) = (?n - ?m + 1) + i" using im by simp
  also have "(of_nat \<dots> :: u32) = of_nat (unat (live_earliestSeq (liveFrameCounter s))) + of_nat i"
    by (simp only: live_earliestSeq_nat of_nat_add)
  finally show ?thesis by simp
qed

text \<open>
  Claim C8. In every buffer state that pushes of well-formed frames lead to from boot, a
  query whose \<open>since\<close> is older than the oldest retained sequence starts at the oldest
  retained sequence: it returns (never fails to return) the retained frames from the oldest
  one on, at most \<open>limit\<close> of them, each the present occupant of the slot
  \<open>(seq - 1) mod 200\<close> with that very stored sequence number, so no overwritten entry.
\<close>

theorem live_query_since_clamp:
  assumes frames: "list_all (\<lambda>p. CanFrame_ok (fst p)) ps"
    and reach: "storeLiveFrames ps live_boot = Some s"
    and old: "live_since sinceArg < live_earliestSeq (liveFrameCounter s)"
  shows "handleLiveData sinceArg limitArg s =
           Some (liveFrameCounter s, take (nat (live_limit limitArg)) (live_retained s))
       \<and> (liveFrameCounter s \<noteq> 0 \<longrightarrow>
            live_startSeq (live_since sinceArg) (liveFrameCounter s)
              = live_earliestSeq (liveFrameCounter s))
       \<and> (\<forall>i < length (live_retained s).
            seq (live_retained s ! i) = live_earliestSeq (liveFrameCounter s) + of_nat i
          \<and> live_retained s ! i
              = liveFrameBuffer s ! unat ((seq (live_retained s ! i) - 1) mod 200))"
proof -
  let ?L = "liveFrameCounter s"
  let ?n = "unat ?L"
  let ?m = "min ?n 200"
  have inv: "live_inv s"
    using live_inv_boot frames reach by (rule live_inv_reachable)
  have start: "live_startSeq (live_since sinceArg) ?L = live_earliestSeq ?L" if "?L \<noteq> 0"
    using old that by (rule live_startSeq_clamped)
  have seqs: "seq (live_retained s ! i) = live_earliestSeq ?L + of_nat i"
    if "i < length (live_retained s)" for i
    using inv that by (rule live_retained_seq)
  have slot: "live_retained s ! i = liveFrameBuffer s ! unat ((seq (live_retained s ! i) - 1) mod 200)"
    if i: "i < length (live_retained s)" for i
  proof -
    from i have im: "i < ?m" by (simp add: live_retained_length)
    have k: "?n - ?m + i < ?n" using im by auto
    have r: "live_retained s ! i = liveFrameBuffer s ! ((?n - ?m + i) mod 200)"
      using im nth_upt [OF k] by (simp add: live_retained_def Let_def)
    have "unat (live_earliestSeq ?L + of_nat i) = (?n - ?m + 1) + i"
    proof -
      have "live_earliestSeq ?L + of_nat i = of_nat ((?n - ?m + 1) + i)"
        by (simp only: of_nat_add flip: live_earliestSeq_nat) simp
      moreover have "(?n - ?m + 1) + i < 2 ^ 32"
        using k unsigned_less [of ?L, where 'a = nat] by simp
      ultimately show ?thesis by (simp only: unat_of_nat32)
    qed
    then have "unat ((seq (live_retained s ! i) - 1) mod 200) = (?n - ?m + i) mod 200"
      using slot_index_nat [of "seq (live_retained s ! i)"] seqs [OF i] by simp
    with r show ?thesis by simp
  qed
  have q: "handleLiveData sinceArg limitArg s =
           Some (?L, take (nat (live_limit limitArg)) (live_retained s))"
  proof (cases "?L = 0")
    case True
    then show ?thesis by (simp add: handleLiveData_def live_retained_def)
  next
    case False
    then have n0: "0 < ?n" by (simp add: unat_gt_0)
    then have j: "?m - 1 < ?m" by (auto simp: min_def)
    have lim: "?n < 2 ^ 32 - 1 \<or> live_limit limitArg \<le> int (?m - 1 + 1)"
    proof (cases "?n < 2 ^ 32 - 1")
      case True
      then show ?thesis by simp
    next
      case False
      then have "?m = 200" by simp
      then show ?thesis using live_limit_bounds [of limitArg] by simp
    qed
    have e: "live_earliestSeq ?L = of_nat (?n - (?m - 1))"
    proof -
      have "?n - (?m - 1) = ?n - ?m + 1" using n0 by auto
      then show ?thesis by (simp only: flip: live_earliestSeq_nat) simp
    qed
    have r: "[?n - 1 - (?m - 1) ..< ?n] = [?n - ?m ..< ?n]"
      using n0 by (auto simp: min_def)
    from live_loop_from_inv [OF inv j lim]
    have "live_loop (liveFrameBuffer s) ?L (live_limit limitArg) (live_earliestSeq ?L) 0 []
          = Some (take (nat (live_limit limitArg)) (live_retained s))"
      unfolding e r by (simp add: live_retained_def Let_def)
    then show ?thesis
      using False start by (simp add: handleLiveData_def Let_def word_greater_zero_iff)
  qed
  show ?thesis using q start seqs slot by blast
qed

text \<open>
  Claim C5, as the code behaves. In every reachable buffer state with latest sequence
  \<open>L \<ge> 1\<close>, a query with \<open>since \<ge> L\<close> does not return an empty list: the clamp
  \<open>if (startSeq > liveFrameCounter) startSeq = liveFrameCounter\<close> makes it return the
  latest frame, whose sequence \<open>L\<close> is not above \<open>since\<close>.
\<close>

theorem live_query_no_new_data:
  assumes frames: "list_all (\<lambda>p. CanFrame_ok (fst p)) ps"
    and reach: "storeLiveFrames ps live_boot = Some s"
    and L1: "liveFrameCounter s \<ge> 1"
    and since: "live_since sinceArg \<ge> liveFrameCounter s"
  shows "handleLiveData sinceArg limitArg s =
           Some (liveFrameCounter s,
                 [liveFrameBuffer s ! unat ((liveFrameCounter s - 1) mod 200)])
       \<and> seq (liveFrameBuffer s ! unat ((liveFrameCounter s - 1) mod 200)) = liveFrameCounter s"
proof -
  let ?L = "liveFrameCounter s"
  let ?n = "unat ?L"
  let ?since = "live_since sinceArg"
  have inv: "live_inv s"
    using live_inv_boot frames reach by (rule live_inv_reachable)
  have n1: "1 \<le> ?n" using L1 by (simp add: word_le_nat_alt)
  have sb: "unat ?since < 2 ^ 31" by (rule live_since_bound)
  have ns: "?n \<le> unat ?since" using since by (simp add: word_le_nat_alt)
  have s1: "unat (?since + 1) = unat ?since + 1"
    using sb by (simp add: unat_word_ariths)
  have e: "unat (live_earliestSeq ?L) \<le> ?n"
    unfolding live_earliestSeq_nat using n1 by auto
  have "?since > 0" using ns n1 by (simp add: word_less_nat_alt)
  moreover have "\<not> ?since + 1 < live_earliestSeq ?L"
    unfolding word_less_nat_alt s1 using e ns by simp
  moreover have "?since + 1 > ?L"
    unfolding word_less_nat_alt s1 using ns by simp
  ultimately have start: "live_startSeq ?since ?L = ?L"
    by (simp add: live_startSeq_def Let_def)
  have j: "0 < min ?n 200" using n1 by simp
  have lim: "?n < 2 ^ 32 - 1 \<or> live_limit limitArg \<le> int (0 + 1)"
    using ns sb by simp
  from live_loop_from_inv [OF inv j lim]
  have "live_loop (liveFrameBuffer s) ?L (live_limit limitArg) ?L 0 []
        = Some (take (nat (live_limit limitArg)) [liveFrameBuffer s ! ((?n - 1) mod 200)])"
    using n1 by (simp add: upt_rec [of "?n - Suc 0" ?n])
  moreover have "take (nat (live_limit limitArg)) [liveFrameBuffer s ! ((?n - 1) mod 200)]
        = [liveFrameBuffer s ! ((?n - 1) mod 200)]"
    using live_limit_bounds [of limitArg] by (cases "nat (live_limit limitArg)") simp_all
  moreover have idx: "unat ((?L - 1) mod 200) = (?n - 1) mod 200"
    using n1 by (rule slot_index_nat)
  moreover have "?L > 0" using n1 by (simp add: word_less_nat_alt)
  ultimately have q: "handleLiveData sinceArg limitArg s =
           Some (?L, [liveFrameBuffer s ! unat ((?L - 1) mod 200)])"
    using start by (simp add: handleLiveData_def Let_def)
  have "seq (liveFrameBuffer s ! ((?n - 1 - 0) mod 200)) = of_nat (?n - 0)"
    using inv j by (simp add: live_inv_def list_all_iff)
  then have "seq (liveFrameBuffer s ! unat ((?L - 1) mod 200)) = ?L"
    unfolding idx by simp
  with q show ?thesis by simp
qed

lemma storeLiveFrames_counter:
  "live_ok s \<Longrightarrow> list_all (\<lambda>p. CanFrame_ok (fst p)) ps \<Longrightarrow>
   unat (liveFrameCounter s) + length ps < 2 ^ 32 \<Longrightarrow>
   \<exists>s'. storeLiveFrames ps s = Some s'
      \<and> unat (liveFrameCounter s') = unat (liveFrameCounter s) + length ps"
proof (induction ps arbitrary: s)
  case Nil
  then show ?case by simp
next
  case (Cons p ps)
  obtain frame timestamp us formattedTime where p: "p = (frame, timestamp, us, formattedTime)"
    by (cases p) auto
  from Cons.prems(2) p have ok: "CanFrame_ok frame" by simp
  let ?s1 = "s\<lparr>liveFrameBuffer :=
                     (liveFrameBuffer s)
                       [unat (liveFrameCounter s) mod 200 :=
                          live_slot frame timestamp us formattedTime (liveFrameCounter s + 1)],
                   liveFrameCounter := liveFrameCounter s + 1\<rparr>"
  have s1: "storeLiveFrame frame timestamp us formattedTime s = Some ?s1"
    using Cons.prems(1) ok by (rule storeLiveFrame_result)
  have ok1: "live_ok ?s1" using Cons.prems(1) ok s1 by (rule live_ok_store)
  have c1: "unat (liveFrameCounter ?s1) = unat (liveFrameCounter s) + 1"
    using Cons.prems(3) by (simp add: unat_word_ariths)
  have "list_all (\<lambda>p. CanFrame_ok (fst p)) ps"
    using Cons.prems(2) by simp
  moreover have "unat (liveFrameCounter ?s1) + length ps < 2 ^ 32"
    using Cons.prems(3) unfolding c1 by simp
  ultimately have "\<exists>s'. storeLiveFrames ps ?s1 = Some s'
      \<and> unat (liveFrameCounter s') = unat (liveFrameCounter ?s1) + length ps"
    using ok1 by (intro Cons.IH)
  then show ?case unfolding c1 using s1 p by auto
qed

text \<open>
  Claim C9, amended. While the counter is below \<open>0xFFFFFFFF\<close>, a push stores the frame
  into slot \<open>(sequence - 1) mod 200\<close>, overwriting the occupant, with the new sequence
  number as the slot's stored sequence, and the counter grows by exactly 1; from boot,
  the \<open>k\<close>-th push is given the sequence number \<open>k\<close>, for fewer than \<open>2^32\<close> pushes.
\<close>

theorem storeLiveFrame_push:
  assumes "live_ok s" and "CanFrame_ok frame" and "liveFrameCounter s \<noteq> 0xFFFFFFFF"
    and "list_all (\<lambda>p. CanFrame_ok (fst p)) ps" and "length ps < 2 ^ 32" and "k \<le> length ps"
  shows "storeLiveFrame frame timestamp us formattedTime s =
           Some (s\<lparr>liveFrameBuffer :=
                     (liveFrameBuffer s)
                       [(unat (liveFrameCounter s + 1) - 1) mod 200 :=
                          live_slot frame timestamp us formattedTime (liveFrameCounter s + 1)],
                   liveFrameCounter := liveFrameCounter s + 1\<rparr>)
       \<and> seq (live_slot frame timestamp us formattedTime (liveFrameCounter s + 1))
           = liveFrameCounter s + 1
       \<and> unat (liveFrameCounter s + 1) = unat (liveFrameCounter s) + 1
       \<and> (\<exists>sk. storeLiveFrames (take k ps) live_boot = Some sk \<and> unat (liveFrameCounter sk) = k)"
proof -
  have "unat (liveFrameCounter s) \<noteq> unat (0xFFFFFFFF :: u32)"
    using assms(3) by (simp only: word_unat_eq_iff not_False_eq_True)
  then have "unat (liveFrameCounter s) < 2 ^ 32 - 1"
    using unsigned_less [of "liveFrameCounter s", where 'a = nat] by simp
  then have u: "unat (liveFrameCounter s + 1) = unat (liveFrameCounter s) + 1"
    by (simp add: unat_word_ariths)
  have r: "storeLiveFrame frame timestamp us formattedTime s =
           Some (s\<lparr>liveFrameBuffer :=
                     (liveFrameBuffer s)
                       [(unat (liveFrameCounter s + 1) - 1) mod 200 :=
                          live_slot frame timestamp us formattedTime (liveFrameCounter s + 1)],
                   liveFrameCounter := liveFrameCounter s + 1\<rparr>)"
    unfolding u using storeLiveFrame_result [OF assms(1,2)] by simp
  have "list_all (\<lambda>p. CanFrame_ok (fst p)) (take k ps)"
    using assms(4) by (auto simp: list_all_iff dest: in_set_takeD)
  moreover have "unat (liveFrameCounter live_boot) + length (take k ps) < 2 ^ 32"
    using assms(5,6) by (simp add: live_boot_def)
  ultimately have "\<exists>sk. storeLiveFrames (take k ps) live_boot = Some sk
      \<and> unat (liveFrameCounter sk) = unat (liveFrameCounter live_boot) + length (take k ps)"
    by (intro storeLiveFrames_counter live_ok_boot)
  then have "\<exists>sk. storeLiveFrames (take k ps) live_boot = Some sk \<and> unat (liveFrameCounter sk) = k"
    using assms(6) by (simp add: live_boot_def)
  with r u show ?thesis by (simp add: live_slot_def)
qed


lemma live_ok_at_max: "live_ok live_at_max"
  using live_ok_boot by (simp add: live_ok_def live_at_max_def)

lemma CanFrame_ok_frame_123: "CanFrame_ok frame_123"
  by (simp add: CanFrame_ok_def frame_123_def)

theorem storeLiveFrame_push_witness:
  "live_ok live_boot \<and> CanFrame_ok frame_123 \<and> liveFrameCounter live_boot \<noteq> 0xFFFFFFFF
   \<and> list_all (\<lambda>p. CanFrame_ok (fst p)) pushes_1 \<and> length pushes_1 < 2 ^ 32
   \<and> 1 \<le> length pushes_1
   \<and> storeLiveFrame frame_123 1769678401 123456 ''2026-01-29 12:00:01'' live_boot =
           Some (live_boot\<lparr>liveFrameBuffer :=
                     (liveFrameBuffer live_boot)
                       [(unat (liveFrameCounter live_boot + 1) - 1) mod 200 :=
                          live_slot frame_123 1769678401 123456 ''2026-01-29 12:00:01''
                            (liveFrameCounter live_boot + 1)],
                   liveFrameCounter := liveFrameCounter live_boot + 1\<rparr>)
   \<and> unat (liveFrameCounter live_boot + 1) = unat (liveFrameCounter live_boot) + 1
   \<and> (\<exists>sk. storeLiveFrames (take 1 pushes_1) live_boot = Some sk \<and> unat (liveFrameCounter sk) = 1)"
proof -
  have h3: "liveFrameCounter live_boot \<noteq> 0xFFFFFFFF" by (simp add: live_boot_def)
  have h4: "list_all (\<lambda>p. CanFrame_ok (fst p)) pushes_1"
    using CanFrame_ok_frame_123 by (simp add: pushes_1_def)
  have h5: "length pushes_1 < 2 ^ 32" by (simp add: pushes_1_def)
  have h6: "1 \<le> length pushes_1" by (simp add: pushes_1_def)
  note t = storeLiveFrame_push [OF live_ok_boot CanFrame_ok_frame_123 h3 h4 h5 h6,
      of 1769678401 123456 "''2026-01-29 12:00:01''"]
  show ?thesis using live_ok_boot CanFrame_ok_frame_123 h3 h4 h5 h6 t by blast
qed

text \<open>
  Claim C9 as stated fails where the \<open>uint32_t\<close> counter wraps: at the counter
  \<open>0xFFFFFFFF\<close> the push assigns the sequence number 0, stored in slot
  \<open>0xFFFFFFFF mod 200 = 95\<close>; the counter does not grow by 1 and the new sequence
  number is below the previous one.
\<close>

theorem storeLiveFrame_wrap_counterexample:
  "storeLiveFrame frame_123 0 0 [] live_at_max \<noteq> None
   \<and> liveFrameCounter live_at_max = 0xFFFFFFFF
   \<and> liveFrameCounter (the (storeLiveFrame frame_123 0 0 [] live_at_max)) = 0
   \<and> seq (liveFrameBuffer (the (storeLiveFrame frame_123 0 0 [] live_at_max)) ! 95) = 0
   \<and> \<not> liveFrameCounter live_at_max
         < liveFrameCounter (the (storeLiveFrame frame_123 0 0 [] live_at_max))
   \<and> unat (liveFrameCounter (the (storeLiveFrame frame_123 0 0 [] live_at_max)))
        \<noteq> unat (liveFrameCounter live_at_max) + 1"
proof -
  note r = storeLiveFrame_result [OF live_ok_at_max CanFrame_ok_frame_123, of 0 0 "[]"]
  have c: "liveFrameCounter live_at_max = 0xFFFFFFFF" by (simp add: live_at_max_def)
  have l: "length (liveFrameBuffer live_at_max) = 200"
    by (simp add: live_at_max_def live_boot_def LIVE_BUFFER_SIZE_def)
  show ?thesis unfolding r using l by (simp add: c live_slot_def)
qed

lemma reach_1: "storeLiveFrames pushes_1 live_boot = Some live_after_1"
  by code_simp

theorem live_query_no_new_data_witness:
  "list_all (\<lambda>p. CanFrame_ok (fst p)) pushes_1
   \<and> storeLiveFrames pushes_1 live_boot = Some live_after_1
   \<and> liveFrameCounter live_after_1 \<ge> 1
   \<and> live_since (Some 1) \<ge> liveFrameCounter live_after_1
   \<and> handleLiveData (Some 1) None live_after_1 =
         Some (1, [live_slot frame_123 1769678401 123456 ''2026-01-29 12:00:01'' 1])"
proof -
  have h1: "list_all (\<lambda>p. CanFrame_ok (fst p)) pushes_1"
    using CanFrame_ok_frame_123 by (simp add: pushes_1_def)
  have h3: "liveFrameCounter live_after_1 \<ge> 1" by (simp add: live_after_1_def)
  have h4: "live_since (Some 1) \<ge> liveFrameCounter live_after_1"
    by (simp add: live_after_1_def live_since_def)
  note t = live_query_no_new_data [OF h1 reach_1 h3 h4, of None]
  have "liveFrameBuffer live_after_1 ! unat ((liveFrameCounter live_after_1 - 1) mod 200)
        = live_slot frame_123 1769678401 123456 ''2026-01-29 12:00:01'' 1"
    by (simp add: live_after_1_def)
  moreover have "liveFrameCounter live_after_1 = 1" by (simp add: live_after_1_def)
  ultimately show ?thesis using h1 reach_1 h3 h4 t by simp
qed


section \<open>Properties of the record encoder\<close>

lemma toupper_digit_all:
  "list_all (\<lambda>n. toupper (digit_char n) = ''0123456789ABCDEF'' ! n) [0..<16]"
  by code_simp

lemma toupper_digit: "n < 16 \<Longrightarrow> toupper (digit_char n) = ''0123456789ABCDEF'' ! n"
proof -
  assume "n < 16"
  then have "n \<in> set [0..<16]" by simp
  moreover have "\<forall>n\<in>set [0..<16]. toupper (digit_char n) = ''0123456789ABCDEF'' ! n"
    using toupper_digit_all by (simp only: list_all_iff)
  ultimately show ?thesis by blast
qed

lemma hex_two_digits:
  "(if b < 0x10 then ''0'' else []) @ toUpperCase (String_num (unat (b::byte)) 16) = hex_byte b"
proof (cases "b < 0x10")
  case True
  then have n: "unat b < 16" by (simp add: word_less_nat_alt)
  then have "String_num (unat b) 16 = [digit_char (unat b)]"
    by (subst String_num.simps) simp
  then show ?thesis using True n by (simp add: toUpperCase_def toupper_digit hex_byte_def)
next
  case False
  then have n: "16 \<le> unat b" by (simp add: word_less_nat_alt)
  have m: "unat b < 256" using unsigned_less [of b, where 'a = nat] by simp
  then have d: "unat b div 16 < 16" by simp
  have "String_num (unat b) 16 = String_num (unat b div 16) 16 @ [digit_char (unat b mod 16)]"
    using n by (subst String_num.simps) simp
  also have "String_num (unat b div 16) 16 = [digit_char (unat b div 16)]"
    using d by (subst String_num.simps) simp
  finally show ?thesis using False d by (simp add: toUpperCase_def toupper_digit hex_byte_def)
qed


lemma hex_byte_shape:
  "length (hex_byte b) = 2 \<and> set (hex_byte b) \<subseteq> set ''0123456789ABCDEF''"
proof -
  have l: "length ''0123456789ABCDEF'' = 16" by simp
  have "unat b div 16 < 16"
    using unsigned_less [of b, where 'a = nat] by simp
  then have 1: "''0123456789ABCDEF'' ! (unat b div 16) \<in> set ''0123456789ABCDEF''"
    by (intro nth_mem) (simp only: l)
  have "unat b mod 16 < 16" by simp
  then have 2: "''0123456789ABCDEF'' ! (unat b mod 16) \<in> set ''0123456789ABCDEF''"
    by (intro nth_mem) (simp only: l)
  show ?thesis using 1 2 unfolding hex_byte_def by simp
qed

lemma data_columns_loop_result:
  "length (data frame) = 8 \<Longrightarrow>
   data_columns_loop frame len i line =
     Some (line @ concat (map (\<lambda>j. '','' @ (if j < len then hex_byte (data frame ! j) else ''00''))
                           [i..<8]))"
proof (induction frame len i line rule: data_columns_loop.induct)
  case (1 frame len i line)
  show ?case
  proof (cases "i < 8")
    case False
    then show ?thesis by (subst data_columns_loop.simps) simp
  next
    case i: True
    then have u: "[i..<8] = i # [i + 1..<8]" by (simp add: upt_conv_Cons)
    have g: "array_get (data frame) i = Some (data frame ! i)"
      using i 1(3) by (simp add: array_get_def)
    show ?thesis
    proof (cases "i < len")
      case True
      let ?b = "data frame ! i"
      have e: "(if ?b < 0x10 then line @ '','' @ ''0'' else line @ '','')
                 @ toUpperCase (String_num (unat ?b) 16) = line @ '','' @ hex_byte ?b"
        using hex_two_digits [of ?b] by (auto split: if_splits)
      have "data_columns_loop frame len i line
            = data_columns_loop frame len (i + 1) (line @ '','' @ hex_byte ?b)"
        using i True g e by (subst data_columns_loop.simps) simp
      also have "\<dots> = Some ((line @ '','' @ hex_byte ?b) @
          concat (map (\<lambda>j. '','' @ (if j < len then hex_byte (data frame ! j) else ''00''))
                           [i + 1..<8]))"
        using 1(1) [OF i True g 1(3)] unfolding e .
      finally show ?thesis unfolding u using True by simp
    next
      case False
      have "data_columns_loop frame len i line
            = data_columns_loop frame len (i + 1) (line @ '','' @ ''00'')"
        using i False by (subst data_columns_loop.simps) simp
      also have "\<dots> = Some ((line @ '','' @ ''00'') @
          concat (map (\<lambda>j. '','' @ (if j < len then hex_byte (data frame ! j) else ''00''))
                           [i + 1..<8]))"
        using 1(2) [OF i False 1(3)] by simp
      finally show ?thesis unfolding u using False by simp
    qed
  qed
qed

lemma upt_0_8: "[0..<8] = [0, 1, 2, 3, 4, 5, 6, 7]"
  by code_simp

lemma csv_line_result:
  assumes "CanFrame_ok frame"
  shows "csv_line timeStr timestamp us frame sn =
     Some (csv_time_fields timeStr timestamp us @ '',''
           @ toUpperCase (String_num (unat (identifier_f frame)) 16)
           @ '','' @ (if extd frame then ''1'' else ''0'')
           @ '','' @ (if rtr frame then ''1'' else ''0'')
           @ '','' @ String_num (unat (data_length_code frame)) 10
           @ concat (map (\<lambda>j. '','' @ (if j < unat (data_length_code frame)
                                         then hex_byte (data frame ! j) else ''00''))
                       [0..<8])
           @ '','' @ csv_sensor_fields sn)"
proof -
  have l: "length (data frame) = 8" using assms by (simp add: CanFrame_ok_def)
  let ?len = "if data_length_code frame > 8 then 8 else data_length_code frame"
  have c: "map (\<lambda>j. '','' @ (if j < unat ?len then hex_byte (data frame ! j) else ''00'')) [0..<8]
         = map (\<lambda>j. '','' @ (if j < unat (data_length_code frame)
                                         then hex_byte (data frame ! j) else ''00'')) [0..<8]"
    by (rule map_cong [OF refl]) (auto simp: word_less_nat_alt)
  show ?thesis
    unfolding csv_line_def Let_def data_columns_loop_result [OF l] c by simp
qed

text \<open>
  Claim C3. A record with identifier \<open>0x123\<close>, both flags clear, data length 3 and
  the data bytes \<open>AB CD EF\<close> (whatever the five bytes beyond the data length hold) is
  encoded as the time fields, then exactly \<open>,123,0,0,3,AB,CD,EF,00,00,00,00,00,\<close>, then
  the sensor fields: identifier in upper-case hex without prefix, flags as 0 or 1, the
  length in decimal, eight data columns of two hex digits, \<open>00\<close> beyond the length.
\<close>

theorem record_encoding_example:
  "csv_line timeStr timestamp us
     \<lparr>identifier_f = 0x123, extd = False, rtr = False, data_length_code = 3,
      data = [0xAB, 0xCD, 0xEF, b3, b4, b5, b6, b7]\<rparr> sn =
   Some (csv_time_fields timeStr timestamp us
         @ '',123,0,0,3,AB,CD,EF,00,00,00,00,00,''
         @ csv_sensor_fields sn)"
proof -
  let ?f = "\<lparr>identifier_f = 0x123, extd = False, rtr = False, data_length_code = 3,
      data = [0xAB, 0xCD, 0xEF, b3, b4, b5, b6, b7]\<rparr>"
  have ok: "CanFrame_ok ?f" by (simp add: CanFrame_ok_def)
  have i: "toUpperCase (String_num 291 16) = ''123''" by code_simp
  have d: "String_num 3 10 = ''3''" by code_simp
  have h: "hex_byte 0xAB = ''AB''" "hex_byte 0xCD = ''CD''" "hex_byte 0xEF = ''EF''"
    by (simp_all add: hex_byte_def)
  show ?thesis
    unfolding csv_line_result [OF ok] upt_0_8 by (simp add: i d h)
qed


text \<open>
  Claim C10. The encoder is total over the data length code: for every frame, so also
  with a length code above 8, \<open>writeCANMessage\<close> builds a line with exactly eight data
  columns of two hex digits each, and \<open>storeLiveFrame\<close> fills the eight payload bytes of
  the slot with the frame's bytes below the length code and zeros from there on; neither
  reads or writes outside the 8-byte arrays (the model's \<open>None\<close>). With a length code
  above 8 the effective length is 8: all eight columns are the frame's bytes, and the slot
  holds those eight bytes.
\<close>

theorem encoder_total_over_data_length:
  assumes ok: "CanFrame_ok frame" and s: "live_ok s"
  shows "csv_line timeStr timestamp us frame sn =
           Some (csv_time_fields timeStr timestamp us @ '',''
                 @ toUpperCase (String_num (unat (identifier_f frame)) 16)
                 @ '','' @ (if extd frame then ''1'' else ''0'')
                 @ '','' @ (if rtr frame then ''1'' else ''0'')
                 @ '','' @ String_num (unat (data_length_code frame)) 10
                 @ concat (map (\<lambda>j. '','' @ (if j < unat (data_length_code frame)
                                               then hex_byte (data frame ! j) else ''00''))
                             [0..<8])
                 @ '','' @ csv_sensor_fields sn)
       \<and> length (hex_byte b) = 2 \<and> set (hex_byte b) \<subseteq> set ''0123456789ABCDEF''
       \<and> storeLiveFrame frame timestamp us formattedTime s =
           Some (s\<lparr>liveFrameBuffer :=
                     (liveFrameBuffer s)
                       [unat (liveFrameCounter s) mod 200 :=
                          live_slot frame timestamp us formattedTime (liveFrameCounter s + 1)],
                   liveFrameCounter := liveFrameCounter s + 1\<rparr>)
       \<and> data_l (live_slot frame timestamp us formattedTime (liveFrameCounter s + 1))
           = map (\<lambda>j. if j < unat (data_length_code frame) then data frame ! j else 0) [0..<8]
       \<and> (data_length_code frame > 8 \<longrightarrow>
            map (\<lambda>j. '','' @ (if j < unat (data_length_code frame)
                                then hex_byte (data frame ! j) else ''00'')) [0..<8]
              = map (\<lambda>j. '','' @ hex_byte (data frame ! j)) [0..<8]
          \<and> data_l (live_slot frame timestamp us formattedTime (liveFrameCounter s + 1))
              = data frame)"
proof -
  have l: "length (data frame) = 8" using ok by (simp add: CanFrame_ok_def)
  have big: "map (\<lambda>j. '','' @ (if j < unat (data_length_code frame)
                                then hex_byte (data frame ! j) else ''00'')) [0..<8]
              = map (\<lambda>j. '','' @ hex_byte (data frame ! j)) [0..<8]
          \<and> data_l (live_slot frame timestamp us formattedTime (liveFrameCounter s + 1))
              = data frame"
    if "data_length_code frame > 8"
  proof -
    from that have n: "8 < unat (data_length_code frame)" by (simp add: word_less_nat_alt)
    have 1: "map (\<lambda>j. '','' @ (if j < unat (data_length_code frame)
                                then hex_byte (data frame ! j) else ''00'')) [0..<8]
              = map (\<lambda>j. '','' @ hex_byte (data frame ! j)) [0..<8]"
      using n by (intro map_cong [OF refl]) auto
    have "map (\<lambda>j. if j < unat (data_length_code frame) then data frame ! j else 0) [0..<8]
          = data frame"
      using n l by (intro nth_equalityI) auto
    then have 2: "data_l (live_slot frame timestamp us formattedTime (liveFrameCounter s + 1))
              = data frame"
      by (simp add: live_slot_def slot_payload_def)
    from 1 2 show ?thesis by (rule conjI)
  qed
  show ?thesis
    using csv_line_result [OF ok, of timeStr timestamp us sn] hex_byte_shape [of b]
      storeLiveFrame_result [OF s ok, of timestamp us formattedTime] big
    by (simp add: live_slot_def slot_payload_def)
qed

lemma replicate_4: "replicate 4 x = [x, x, x, x]"
  by (simp add: numeral_eq_Suc)

theorem encoder_total_over_data_length_witness:
  "CanFrame_ok frame_dlc15 \<and> live_ok live_boot \<and> data_length_code frame_dlc15 > 8
   \<and> csv_line ''2026-01-29 12:00:01'' 1769678401 123456 frame_dlc15 sensors_boot =
       Some (''2026-01-29 12:00:01,1769678401,123456,123,0,0,15,AB,CD,EF,11,22,33,44,55''
             @ '',0.0000,0.0000,0.0000,0.0000,0,0,0,0,0,0,0,0'')
   \<and> storeLiveFrame frame_dlc15 1769678401 123456 ''2026-01-29 12:00:01'' live_boot =
           Some (live_boot\<lparr>liveFrameBuffer :=
                     (liveFrameBuffer live_boot)
                       [unat (liveFrameCounter live_boot) mod 200 :=
                          live_slot frame_dlc15 1769678401 123456 ''2026-01-29 12:00:01''
                            (liveFrameCounter live_boot + 1)],
                   liveFrameCounter := liveFrameCounter live_boot + 1\<rparr>)
   \<and> data_l (live_slot frame_dlc15 1769678401 123456 ''2026-01-29 12:00:01''
               (liveFrameCounter live_boot + 1))
       = data frame_dlc15"
proof -
  have h1: "CanFrame_ok frame_dlc15"
    by (simp add: CanFrame_ok_def frame_dlc15_def frame_123_def)
  have h3: "data_length_code frame_dlc15 > 8"
    by (simp add: frame_dlc15_def)
  note t = encoder_total_over_data_length [OF h1 live_ok_boot, of "''2026-01-29 12:00:01''"
      1769678401 123456 sensors_boot 0 "''2026-01-29 12:00:01''"]
  have v: "csv_line ''2026-01-29 12:00:01'' 1769678401 123456 frame_dlc15 sensors_boot =
       Some (''2026-01-29 12:00:01,1769678401,123456,123,0,0,15,AB,CD,EF,11,22,33,44,55''
             @ '',0.0000,0.0000,0.0000,0.0000,0,0,0,0,0,0,0,0'')"
    unfolding csv_line_result [OF h1] upt_0_8
    by (simp add: csv_time_fields_def csv_sensor_fields_def sensors_boot_def float_zero_def
          replicate_4 frame_dlc15_def frame_123_def hex_byte_def String_num.simps
          digit_char_def toUpperCase_def toupper_def)
  show ?thesis using h1 live_ok_boot h3 t v by blast
qed

section \<open>Properties of the log file writer\<close>

lemma logFile_write_buf_path:
  "logFile_write_buf bs s = (ok, s') \<Longrightarrow> logFile s = Some (path, pos) \<Longrightarrow>
   (\<exists>pos'. logFile s' = Some (path, pos'))"
  by (auto simp: logFile_write_buf_def io_next_def Let_def split: option.splits list.splits if_splits prod.splits)

lemma logFile_write_buf_name [simp]:
  "currentLogFileName (snd (logFile_write_buf bs s)) = currentLogFileName s"
  by (auto simp: logFile_write_buf_def io_next_def Let_def split: option.splits list.splits if_splits prod.splits)

lemma writeEncryptedLine_loop_keeps:
  "writeEncryptedLine_loop bs s = (True, s') \<Longrightarrow> logFile s = Some (path, pos) \<Longrightarrow>
   (\<exists>pos'. logFile s' = Some (path, pos')) \<and> currentLogFileName s' = currentLogFileName s"
proof (induction bs arbitrary: s pos)
  case Nil
  then show ?case by simp
next
  case (Cons b bs)
  let ?e = "encryptByte ENCRYPTION_KEY (currentCipherState s) b"
  let ?s0 = "s\<lparr>currentCipherState := snd ?e\<rparr>"
  obtain ok s1 where w: "logFile_write (fst ?e) ?s0 = (ok, s1)" by (cases "logFile_write (fst ?e) ?s0")
  from Cons.prems(1) w have ok: ok and rest: "writeEncryptedLine_loop bs s1 = (True, s')"
    by (auto simp: split_def Let_def split: if_splits)
  have "logFile ?s0 = Some (path, pos)" using Cons.prems(2) by simp
  with w obtain pos1 where p1: "logFile s1 = Some (path, pos1)"
    unfolding logFile_write_def by (blast dest: logFile_write_buf_path)
  have n1: "currentLogFileName s1 = currentLogFileName s"
    using w logFile_write_buf_name [of "[fst ?e]" ?s0] by (simp add: logFile_write_def)
  from Cons.IH [OF rest p1] n1 show ?case by simp
qed

lemma writeEncryptedLine_keeps:
  assumes "writeEncryptedLine line s = (True, s')" and "logFile s = Some (path, pos)"
  shows "(\<exists>pos'. logFile s' = Some (path, pos')) \<and> currentLogFileName s' = currentLogFileName s"
proof -
  obtain ok1 s1 where 1: "writeEncryptedLine_loop (map byte_of_char line) s = (ok1, s1)"
    by (cases "writeEncryptedLine_loop (map byte_of_char line) s")
  obtain ok2 s2 where 2: "writeEncryptedLine_loop [byte_of_char CHR 0x0A] s1 = (ok2, s2)"
    by (cases "writeEncryptedLine_loop [byte_of_char CHR 0x0A] s1")
  from assms 1 2 have ok: ok1 ok2
    and s': "s' = s2\<lparr>currentFileSize := currentFileSize s2 + of_nat (length line + 1)\<rparr>"
    by (auto simp: writeEncryptedLine_def Let_def split: if_splits)
  from writeEncryptedLine_loop_keeps [OF 1 [unfolded ok(1) [THEN eqTrueI]] assms(2)]
  obtain pos1 where p1: "logFile s1 = Some (path, pos1)"
    and n1: "currentLogFileName s1 = currentLogFileName s" by blast
  from writeEncryptedLine_loop_keeps [OF 2 [unfolded ok(2) [THEN eqTrueI]] p1]
  obtain pos2 where p2: "logFile s2 = Some (path, pos2)"
    and n2: "currentLogFileName s2 = currentLogFileName s1" by blast
  show ?thesis using p2 n2 n1 s' by simp
qed

lemma writeCANMessage_recover_ready [simp]:
  "sdCardReady s \<Longrightarrow> writeCANMessage_recover P s = (True, s)"
  by (simp add: writeCANMessage_recover_def)

lemma writeCANMessage_ensure_open [simp]:
  "logFile s \<noteq> None \<Longrightarrow> writeCANMessage_ensure P s = (True, s)"
  by (auto simp: writeCANMessage_ensure_def)

lemma writeCANMessage_flush_proj [simp]:
  "logFile (writeCANMessage_flush s) = logFile s"
  "currentLogFileName (writeCANMessage_flush s) = currentLogFileName s"
  "sdCardReady (writeCANMessage_flush s) = sdCardReady s"
  "files (writeCANMessage_flush s) = files s"
  "currentFileSize (writeCANMessage_flush s) = currentFileSize s"
  "currentCipherState (writeCANMessage_flush s) = currentCipherState s"
  "liveFrameBuffer (writeCANMessage_flush s) = liveFrameBuffer s"
  "liveFrameCounter (writeCANMessage_flush s) = liveFrameCounter s"
  by (simp_all add: writeCANMessage_flush_def Let_def)

lemma writeCANMessage_open_ready:
  assumes "sdCardReady s" and "logFile s \<noteq> None"
  shows "writeCANMessage P frame timestamp us s =
     (case csv_line (format_timeStr P timestamp) timestamp us frame (sens s) of
        None \<Rightarrow> None
      | Some line \<Rightarrow>
          (if fst (writeEncryptedLine line s)
           then Some (True, writeCANMessage_flush (snd (writeEncryptedLine line s)))
           else Some (False, snd (writeEncryptedLine line s))))"
  using assms by (simp add: writeCANMessage_def split_def split: option.splits)

lemma writeCANMessage_no_rollover:
  assumes "sdCardReady s" and "logFile s = Some (path, pos)"
    and "writeCANMessage P frame timestamp us s = Some (True, s')"
  shows "(\<exists>pos'. logFile s' = Some (path, pos')) \<and> currentLogFileName s' = currentLogFileName s"
proof -
  from assms(2) have o: "logFile s \<noteq> None" by simp
  from assms(3) obtain line where
    line: "csv_line (format_timeStr P timestamp) timestamp us frame (sens s) = Some line"
    and w: "fst (writeEncryptedLine line s)"
    and s': "s' = writeCANMessage_flush (snd (writeEncryptedLine line s))"
    unfolding writeCANMessage_open_ready [OF assms(1) o]
    by (auto split: option.splits if_splits)
  from w have "writeEncryptedLine line s = (True, snd (writeEncryptedLine line s))"
    by (cases "writeEncryptedLine line s") simp
  from writeEncryptedLine_keeps [OF this assms(2)] s' show ?thesis by simp
qed

lemma put_bytes_end: "put_bytes (length c) bs c = c @ bs"
  by (simp add: put_bytes_def)

lemma logFile_write_ok:
  assumes "io_plan s = []" and "logFile s = Some (path, length c)" and "files s path = Some c"
  shows "logFile_write b s =
           (True, s\<lparr>files := (files s)(path \<mapsto> c @ [b]), logFile := Some (path, length c + 1)\<rparr>)"
  using assms
  by (simp add: logFile_write_def logFile_write_buf_def io_next_def put_bytes_end)

lemma encryptBytes_Cons_fst:
  "fst (encryptBytes key st (b # bs)) =
     fst (encryptByte key st b) # fst (encryptBytes key (snd (encryptByte key st b)) bs)"
  by (simp add: split_def Let_def)

lemma encryptBytes_Cons_snd:
  "snd (encryptBytes key st (b # bs)) = snd (encryptBytes key (snd (encryptByte key st b)) bs)"
  by (simp add: split_def Let_def)

lemma writeEncryptedLine_loop_ok:
  fixes s :: logger
  assumes "io_plan s = []" and "logFile s = Some (path, length c)" and "files s path = Some c"
  shows "writeEncryptedLine_loop bs s =
           (True, s\<lparr>currentCipherState := snd (encryptBytes ENCRYPTION_KEY (currentCipherState s) bs),
                    files := (files s)(path \<mapsto> c @ fst (encryptBytes ENCRYPTION_KEY (currentCipherState s) bs)),
                    logFile := Some (path, length c + length bs)\<rparr>)"
  using assms
proof (induction bs arbitrary: s c)
  case Nil
  then show ?case by (cases s) (simp add: fun_upd_idem)
next
  case (Cons b bs)
  let ?e = "encryptByte ENCRYPTION_KEY (currentCipherState s) b"
  let ?s0 = "s\<lparr>currentCipherState := snd ?e\<rparr>"
  let ?s1 = "?s0\<lparr>files := (files ?s0)(path \<mapsto> c @ [fst ?e]), logFile := Some (path, length c + 1)\<rparr>"
  have w: "logFile_write (fst ?e) ?s0 = (True, ?s1)"
    using Cons.prems by (intro logFile_write_ok) simp_all
  have r: "writeEncryptedLine_loop bs ?s1 =
      (True, ?s1\<lparr>currentCipherState := snd (encryptBytes ENCRYPTION_KEY (currentCipherState ?s1) bs),
                    files := (files ?s1)(path \<mapsto> (c @ [fst ?e]) @ fst (encryptBytes ENCRYPTION_KEY (currentCipherState ?s1) bs)),
                    logFile := Some (path, length (c @ [fst ?e]) + length bs)\<rparr>)"
    using Cons.prems by (intro Cons.IH) simp_all
  have step: "writeEncryptedLine_loop (b # bs) s = writeEncryptedLine_loop bs ?s1"
    using w by (simp add: split_def Let_def)
  have e: "?s1\<lparr>currentCipherState := snd (encryptBytes ENCRYPTION_KEY (currentCipherState ?s1) bs),
                    files := (files ?s1)(path \<mapsto> (c @ [fst ?e]) @ fst (encryptBytes ENCRYPTION_KEY (currentCipherState ?s1) bs)),
                    logFile := Some (path, length (c @ [fst ?e]) + length bs)\<rparr>
      = s\<lparr>currentCipherState := snd (encryptBytes ENCRYPTION_KEY (currentCipherState s) (b # bs)),
                    files := (files s)(path \<mapsto> c @ fst (encryptBytes ENCRYPTION_KEY (currentCipherState s) (b # bs))),
                    logFile := Some (path, length c + length (b # bs))\<rparr>"
    unfolding encryptBytes_Cons_fst encryptBytes_Cons_snd by (cases s) simp
  show ?case unfolding step r e ..
qed

lemma io_next_live:
  "io_next s = (ok, s') \<Longrightarrow>
   liveFrameBuffer s' = liveFrameBuffer s \<and> liveFrameCounter s' = liveFrameCounter s"
  by (auto simp: io_next_def split: list.splits)

lemma logFile_write_buf_live:
  "logFile_write_buf bs s = (ok, s') \<Longrightarrow>
   liveFrameBuffer s' = liveFrameBuffer s \<and> liveFrameCounter s' = liveFrameCounter s"
  by (auto simp: logFile_write_buf_def io_next_def Let_def
           split: option.splits list.splits if_splits prod.splits)

lemma SD_open_write_live:
  "SD_open_write P path s = (h, s') \<Longrightarrow>
   liveFrameBuffer s' = liveFrameBuffer s \<and> liveFrameCounter s' = liveFrameCounter s"
  by (auto simp: SD_open_write_def io_next_def Let_def
           split: option.splits list.splits if_splits prod.splits open_mode.splits)

lemma writeEncryptedLine_loop_live:
  "writeEncryptedLine_loop bs s = (ok, s') \<Longrightarrow>
   liveFrameBuffer s' = liveFrameBuffer s \<and> liveFrameCounter s' = liveFrameCounter s"
proof (induction bs arbitrary: s)
  case Nil
  then show ?case by simp
next
  case (Cons b bs)
  let ?e = "encryptByte ENCRYPTION_KEY (currentCipherState s) b"
  let ?s0 = "s\<lparr>currentCipherState := snd ?e\<rparr>"
  obtain ok1 s1 where w: "logFile_write (fst ?e) ?s0 = (ok1, s1)"
    by (cases "logFile_write (fst ?e) ?s0")
  have l1: "liveFrameBuffer s1 = liveFrameBuffer s \<and> liveFrameCounter s1 = liveFrameCounter s"
    using logFile_write_buf_live [OF w [unfolded logFile_write_def]] by simp
  show ?case
  proof (cases ok1)
    case True
    with Cons.prems w have "writeEncryptedLine_loop bs s1 = (ok, s')"
      by (simp add: split_def Let_def)
    from Cons.IH [OF this] l1 show ?thesis by simp
  next
    case False
    with Cons.prems w have "s' = (closeCurrentFile s1)\<lparr>sdCardReady := False\<rparr>"
      by (simp add: split_def Let_def)
    then show ?thesis using l1 by (simp add: closeCurrentFile_def logFile_close_def)
  qed
qed

lemma writeEncryptedLine_live:
  "writeEncryptedLine line s = (ok, s') \<Longrightarrow>
   liveFrameBuffer s' = liveFrameBuffer s \<and> liveFrameCounter s' = liveFrameCounter s"
proof -
  assume a: "writeEncryptedLine line s = (ok, s')"
  obtain ok1 s1 where 1: "writeEncryptedLine_loop (map byte_of_char line) s = (ok1, s1)"
    by (cases "writeEncryptedLine_loop (map byte_of_char line) s")
  obtain ok2 s2 where 2: "writeEncryptedLine_loop [byte_of_char CHR 0x0A] s1 = (ok2, s2)"
    by (cases "writeEncryptedLine_loop [byte_of_char CHR 0x0A] s1")
  note l1 = writeEncryptedLine_loop_live [OF 1]
  note l2 = writeEncryptedLine_loop_live [OF 2]
  from a 1 2 have "s' = s \<or> s' = s1 \<or> s' = s2
      \<or> s' = s2\<lparr>currentFileSize := currentFileSize s2 + of_nat (length line + 1)\<rparr>"
    by (auto simp: writeEncryptedLine_def Let_def split: if_splits)
  then show ?thesis using l1 l2 by auto
qed

lemma writeFileHeader_live:
  "writeFileHeader s = (ok, s') \<Longrightarrow>
   liveFrameBuffer s' = liveFrameBuffer s \<and> liveFrameCounter s' = liveFrameCounter s"
proof -
  assume a: "writeFileHeader s = (ok, s')"
  show ?thesis
  proof (cases "logFile s = None")
    case True
    with a show ?thesis by (simp add: writeFileHeader_def)
  next
    case False
    obtain rnd ms ms' where e: "(case entropy s of [] \<Rightarrow> (0, 0, 0) | e # _ \<Rightarrow> e) = (rnd, ms, ms')"
      by (cases "(case entropy s of [] \<Rightarrow> (0::u32, 0::u32, 0::u32) | e # _ \<Rightarrow> e)") auto
    let ?s0 = "s\<lparr>entropy := tl (entropy s),
                  currentFileNonce := generateFileNonce rnd ms ms' (bootMillis s)\<rparr>"
    obtain ok1 s1 where w: "logFile_write_buf (nxt_header (currentFileNonce ?s0)) ?s0 = (ok1, s1)"
      by (cases "logFile_write_buf (nxt_header (currentFileNonce ?s0)) ?s0")
    have l1: "liveFrameBuffer s1 = liveFrameBuffer s \<and> liveFrameCounter s1 = liveFrameCounter s"
      using logFile_write_buf_live [OF w] by simp
    show ?thesis
    proof (cases ok1)
      case False
      with a \<open>logFile s \<noteq> None\<close> e w have "s' = s1"
        by (simp add: writeFileHeader_def Let_def)
      with l1 show ?thesis by simp
    next
      case True
      let ?s2 = "s1\<lparr>currentFileSize := logFile_size s1,
                    currentCipherState := resetCipherState ENCRYPTION_KEY (currentFileNonce s1)\<rparr>"
      from a \<open>logFile s \<noteq> None\<close> e w True
      have "writeEncryptedLine headerLine ?s2 = (ok, s')"
        by (simp add: writeFileHeader_def Let_def)
      from writeEncryptedLine_live [OF this] l1 show ?thesis by simp
    qed
  qed
qed


lemma logFile_write_buf_open:
  "logFile_write_buf bs s = (True, s') \<Longrightarrow> logFile s' \<noteq> None"
  by (auto simp: logFile_write_buf_def io_next_def Let_def
           split: option.splits list.splits if_splits prod.splits)

lemma closeCurrentFile_closed [simp]: "logFile (closeCurrentFile s) = None"
  by (cases "logFile s") (simp_all add: closeCurrentFile_def logFile_close_def)






lemma SD_open_write_ready:
  "SD_open_write P path s = (h, s') \<Longrightarrow> sdCardReady s' = sdCardReady s"
  by (auto simp: SD_open_write_def io_next_def Let_def
           split: option.splits list.splits if_splits prod.splits open_mode.splits)

lemma io_next_proj [simp]:
  "liveFrameBuffer (snd (io_next s)) = liveFrameBuffer s"
  "liveFrameCounter (snd (io_next s)) = liveFrameCounter s"
  "sdCardReady (snd (io_next s)) = sdCardReady s"
  "logFile (snd (io_next s)) = logFile s"
  by (auto simp: io_next_def split: list.splits)

lemma SD_open_write_proj [simp]:
  "liveFrameBuffer (snd (SD_open_write P path s)) = liveFrameBuffer s"
  "liveFrameCounter (snd (SD_open_write P path s)) = liveFrameCounter s"
  "sdCardReady (snd (SD_open_write P path s)) = sdCardReady s"
  by (auto simp: SD_open_write_def io_next_def Let_def
           split: option.splits list.splits if_splits prod.splits open_mode.splits)

lemma writeFileHeader_proj [simp]:
  "liveFrameBuffer (snd (writeFileHeader s)) = liveFrameBuffer s"
  "liveFrameCounter (snd (writeFileHeader s)) = liveFrameCounter s"
  using writeFileHeader_live [of s "fst (writeFileHeader s)" "snd (writeFileHeader s)"] by simp_all


lemma createNewLogFile_folder_proj [simp]:
  "liveFrameBuffer (snd (createNewLogFile_folder s)) = liveFrameBuffer s"
  "liveFrameCounter (snd (createNewLogFile_folder s)) = liveFrameCounter s"
  "sdCardReady (snd (createNewLogFile_folder s)) = sdCardReady s"
  "logFile (snd (createNewLogFile_folder s)) = logFile s"
  by (simp_all add: createNewLogFile_folder_def split_def Let_def)

lemma createNewLogFile_open_proj [simp]:
  "liveFrameBuffer (createNewLogFile_open P s) = liveFrameBuffer s"
  "liveFrameCounter (createNewLogFile_open P s) = liveFrameCounter s"
  "sdCardReady (createNewLogFile_open P s) = sdCardReady s"
  by (simp_all add: createNewLogFile_open_def split_def Let_def)

lemma close_if_open:
  "(if logFile s \<noteq> None then logFile_close s else s) = logFile_close s"
  by (cases "logFile s") (simp_all add: logFile_close_def)

lemma createNewLogFile_unfold:
  "createNewLogFile P s =
     (let f = createNewLogFile_folder (logFile_close s)
      in if \<not> fst f then (False, snd f)
         else (let opened = createNewLogFile_open P (snd f)
               in if logFile opened = None then (False, opened)
                  else (let h = writeFileHeader opened
                        in if \<not> fst h then (False, logFile_close (snd h))
                           else if logFile (snd h) = None then (False, snd h)
                           else (True, (snd h)\<lparr>currentFileSize := logFile_size (snd h),
                                                  frameSequence := 0\<rparr>))))"
  unfolding createNewLogFile_def close_if_open by (simp add: split_def Let_def)

lemma logFile_close_proj [simp]:
  "logFile (logFile_close s) = None"
  "liveFrameBuffer (logFile_close s) = liveFrameBuffer s"
  "liveFrameCounter (logFile_close s) = liveFrameCounter s"
  "sdCardReady (logFile_close s) = sdCardReady s"
  by (simp_all add: logFile_close_def)

lemma createNewLogFile_live [simp]:
  "liveFrameBuffer (snd (createNewLogFile P s)) = liveFrameBuffer s"
  "liveFrameCounter (snd (createNewLogFile P s)) = liveFrameCounter s"
  by (simp_all add: createNewLogFile_unfold Let_def)

lemma createNewLogFile_fail:
  "\<not> fst (createNewLogFile P s) \<Longrightarrow> logFile (snd (createNewLogFile P s)) = None"
  by (simp add: createNewLogFile_unfold Let_def split: if_splits)





lemma writeEncryptedLine_proj [simp]:
  "liveFrameBuffer (snd (writeEncryptedLine line s)) = liveFrameBuffer s"
  "liveFrameCounter (snd (writeEncryptedLine line s)) = liveFrameCounter s"
  using writeEncryptedLine_live [of line s "fst (writeEncryptedLine line s)"
      "snd (writeEncryptedLine line s)"] by simp_all





lemma writeEncryptedLine_ok:
  fixes s :: logger
  assumes plan: "io_plan s = []" and "open": "logFile s = Some (path, length c)"
    and content: "files s path = Some c"
  shows "writeEncryptedLine line s =
           (True, s\<lparr>currentCipherState :=
                      snd (encryptBytes ENCRYPTION_KEY (currentCipherState s) (line_bytes line)),
                    files := (files s)(path \<mapsto>
                      c @ fst (encryptBytes ENCRYPTION_KEY (currentCipherState s) (line_bytes line))),
                    logFile := Some (path, length c + length (line_bytes line)),
                    currentFileSize := currentFileSize s + of_nat (length line + 1)\<rparr>)"
proof -
  let ?bs = "map byte_of_char line"
  let ?nl = "[byte_of_char CHR 0x0A]"
  let ?st = "currentCipherState s"
  let ?e1 = "encryptBytes ENCRYPTION_KEY ?st ?bs"
  let ?s1 = "s\<lparr>currentCipherState := snd ?e1,
                files := (files s)(path \<mapsto> c @ fst ?e1),
                logFile := Some (path, length c + length ?bs)\<rparr>"
  let ?e2 = "encryptBytes ENCRYPTION_KEY (snd ?e1) ?nl"
  let ?s2 = "?s1\<lparr>currentCipherState := snd ?e2,
                files := (files ?s1)(path \<mapsto> (c @ fst ?e1) @ fst ?e2),
                logFile := Some (path, length (c @ fst ?e1) + length ?nl)\<rparr>"
  have 1: "writeEncryptedLine_loop ?bs s = (True, ?s1)"
    using plan "open" content by (rule writeEncryptedLine_loop_ok)
  have 2: "writeEncryptedLine_loop ?nl ?s1 = (True, ?s2)"
    using writeEncryptedLine_loop_ok [of ?s1 path "c @ fst ?e1" ?nl] plan
    by (simp add: encryptBytes_length)
  have e: "encryptBytes ENCRYPTION_KEY ?st (line_bytes line) = (fst ?e1 @ fst ?e2, snd ?e2)"
    unfolding line_bytes_def by (rule encryptBytes_append)
  have o: "logFile s \<noteq> None" using "open" by simp
  have "writeEncryptedLine line s =
      (True, ?s2\<lparr>currentFileSize := currentFileSize ?s2 + of_nat (length line + 1)\<rparr>)"
    using o 1 2 by (simp add: writeEncryptedLine_def del: writeEncryptedLine_loop.simps)
  also have "?s2\<lparr>currentFileSize := currentFileSize ?s2 + of_nat (length line + 1)\<rparr>
      = s\<lparr>currentCipherState :=
                      snd (encryptBytes ENCRYPTION_KEY (currentCipherState s) (line_bytes line)),
                    files := (files s)(path \<mapsto>
                      c @ fst (encryptBytes ENCRYPTION_KEY (currentCipherState s) (line_bytes line))),
                    logFile := Some (path, length c + length (line_bytes line)),
                    currentFileSize := currentFileSize s + of_nat (length line + 1)\<rparr>"
    unfolding e by (cases s) (simp add: encryptBytes_length line_bytes_def)
  finally show ?thesis .
qed

lemma writeCANMessage_ok:
  assumes ready: "sdCardReady s" and plan: "io_plan s = []"
    and "open": "logFile s = Some (path, length c)" and content: "files s path = Some c"
    and line: "csv_line (format_timeStr P timestamp) timestamp us frame (sens s) = Some line"
  shows "writeCANMessage P frame timestamp us s =
           Some (True, writeCANMessage_flush
             (s\<lparr>currentCipherState :=
                      snd (encryptBytes ENCRYPTION_KEY (currentCipherState s) (line_bytes line)),
                    files := (files s)(path \<mapsto>
                      c @ fst (encryptBytes ENCRYPTION_KEY (currentCipherState s) (line_bytes line))),
                    logFile := Some (path, length c + length (line_bytes line)),
                    currentFileSize := currentFileSize s + of_nat (length line + 1)\<rparr>))"
proof -
  have o: "logFile s \<noteq> None" using "open" by simp
  show ?thesis
    unfolding writeCANMessage_open_ready [OF ready o] line
      writeEncryptedLine_ok [OF plan "open" content]
    by simp
qed

lemma startsWith_slash_nonempty: "startsWith str ''/'' \<Longrightarrow> length str > 0"
  by (cases str) (simp_all add: startsWith_def)

lemma download_active_file:
  assumes ready: "sdCardReady s"
    and "open": "logFile s = Some (currentLogFileName s, pos)"
    and content: "files s (currentLogFileName s) = Some c"
    and slash: "startsWith (currentLogFileName s) ''/''"
    and dots: "\<not> has_dotdot (currentLogFileName s)"
    and plan: "io_plan s = [False]"
  shows "handleFileDownload P (currentLogFileName s) s =
           ((200, c), download_reopen P (s\<lparr>io_plan := [], logFile := None\<rparr>))"
proof -
  let ?n = "currentLogFileName s"
  have len: "length ?n > 0" using slash by (rule startsWith_slash_nonempty)
  have p: "download_path ?n s = ?n" using slash by (simp add: download_path_def)
  have d: "download_open ?n True s = (Some (?n, 0), True, s\<lparr>io_plan := [], logFile := None\<rparr>)"
    using "open" content plan
    by (simp add: download_open_def SD_open_read_def io_next_def logFile_close_def)
  show ?thesis
    using ready len dots slash content
    by (simp add: handleFileDownload_def p d Let_def)
qed






lemma sprintf_0d_examples:
  "sprintf_0d 4 2026 = ''2026''" "sprintf_0d 2 1 = ''01''" "sprintf_0d 2 29 = ''29''"
  "sprintf_0d 2 12 = ''12''" "sprintf_0d 2 0 = ''00''"
  by (simp_all add: sprintf_0d_def String_num.simps digit_char_def Let_def)

lemma format_timeStr_example:
  assumes "localtime P = (\<lambda>t. tm_example)"
  shows "format_timeStr P t = ''2026-01-29 12:00:01''"
  by (simp add: format_timeStr_def assms tm_example_def Let_def sprintf_0d_examples)

lemma csv_line_123:
  assumes "localtime P = (\<lambda>t. tm_example)"
  shows "csv_line (format_timeStr P 0) 0 0 frame_123 sensors_boot = Some line_123"
proof -
  have ok: "CanFrame_ok frame_123" by (rule CanFrame_ok_frame_123)
  note t = format_timeStr_example [OF assms, of 0]
  show ?thesis
    unfolding csv_line_result [OF ok] upt_0_8 t line_123_def
    by (simp add: csv_time_fields_def csv_sensor_fields_def sensors_boot_def float_zero_def
          replicate_4 frame_123_def hex_byte_def String_num.simps
          digit_char_def toUpperCase_def toupper_def)
qed


lemma logger_recording_fields:
  "sdCardReady logger_recording"
  "logFile logger_recording = Some (currentLogFileName logger_recording, 16)"
  "files logger_recording (currentLogFileName logger_recording) = Some (nxt_header 0x12345678)"
  "io_plan logger_recording = [False]"
  "sens logger_recording = sensors_boot"
  "currentLogFileName logger_recording = ''/CAN_Logged_Data/CAN_LOG_20260129_120001.NXT''"
  "live_ok logger_recording"
  by (simp_all add: logger_recording_def live_ok_def LIVE_BUFFER_SIZE_def LiveFrame_zero_def
        list_all_iff)

lemma platform_example_fields:
  "localtime platform_truncating = (\<lambda>t. tm_example)"
  "localtime platform_appending = (\<lambda>t. tm_example)"
  "FILE_WRITE platform_truncating = OpenTruncate"
  "FILE_WRITE platform_appending = OpenAppend"
  by (simp_all add: platform_truncating_def platform_appending_def)

lemma length_nxt_header: "length (nxt_header nonce) = 16"
  by (simp add: nxt_header_def NXT_LOG_SIGNATURE_def)

lemma logFile_write_buf_ok:
  assumes "io_plan s = []" and "logFile s = Some (path, length c)" and "files s path = Some c"
  shows "logFile_write_buf bs s =
           (True, s\<lparr>files := (files s)(path \<mapsto> c @ bs),
                    logFile := Some (path, length c + length bs)\<rparr>)"
  using assms by (simp add: logFile_write_buf_def io_next_def put_bytes_end)

lemma SD_open_write_result:
  assumes "io_plan s = []"
  shows "SD_open_write P path s =
           (Some (path, length (opened_content P s path)),
            s\<lparr>files := (files s)(path \<mapsto> opened_content P s path)\<rparr>)"
  using assms
  by (cases "FILE_WRITE P")
     (simp_all add: SD_open_write_def io_next_def opened_content_def file_content_def Let_def)

lemma generateLogFileName_baseTime:
  "baseTime s' = baseTime s \<Longrightarrow> generateLogFileName P s' = generateLogFileName P s"
  by (simp add: generateLogFileName_def)

lemma createNewLogFile_open_result:
  assumes "io_plan s = []"
  shows "createNewLogFile_open P s =
           s\<lparr>currentLogFileName := generateLogFileName P s,
              files := (files s)(generateLogFileName P s \<mapsto>
                          opened_content P s (generateLogFileName P s)),
              logFile := Some (generateLogFileName P s,
                               length (opened_content P s (generateLogFileName P s)))\<rparr>"
proof -
  let ?n = "generateLogFileName P s"
  let ?s0 = "s\<lparr>currentLogFileName := ?n\<rparr>"
  have p: "io_plan ?s0 = []" using assms by simp
  have o: "opened_content P ?s0 ?n = opened_content P s ?n"
    by (cases "FILE_WRITE P") (simp_all add: opened_content_def file_content_def)
  show ?thesis
    unfolding createNewLogFile_open_def Let_def
    by (simp add: SD_open_write_result [OF p] o)
qed

lemma writeFileHeader_result:
  assumes "io_plan s = []" and "logFile s = Some (path, length c)" and "files s path = Some c"
  shows "writeFileHeader s =
           (True, s\<lparr>entropy := tl (entropy s),
                    currentFileNonce := next_nonce s,
                    currentCipherState :=
                      snd (encryptBytes ENCRYPTION_KEY
                             (resetCipherState ENCRYPTION_KEY (next_nonce s))
                             (line_bytes headerLine)),
                    files := (files s)(path \<mapsto> c @ new_file_bytes (next_nonce s)),
                    logFile := Some (path, length (c @ new_file_bytes (next_nonce s))),
                    currentFileSize :=
                      of_nat (length (c @ nxt_header (next_nonce s)))
                      + of_nat (length headerLine + 1)\<rparr>)"
proof -
  obtain rnd ms ms' where e: "(case entropy s of [] \<Rightarrow> (0, 0, 0) | e # _ \<Rightarrow> e) = (rnd, ms, ms')"
    by (cases "(case entropy s of [] \<Rightarrow> (0::u32, 0::u32, 0::u32) | e # _ \<Rightarrow> e)") auto
  have n: "next_nonce s = generateFileNonce rnd ms ms' (bootMillis s)"
    by (simp add: next_nonce_def e)
  let ?N = "next_nonce s"
  let ?s0 = "s\<lparr>entropy := tl (entropy s), currentFileNonce := ?N\<rparr>"
  let ?h = "nxt_header ?N"
  let ?s1 = "?s0\<lparr>files := (files ?s0)(path \<mapsto> c @ ?h),
                  logFile := Some (path, length c + length ?h)\<rparr>"
  have w: "logFile_write_buf ?h ?s0 = (True, ?s1)"
    using assms by (intro logFile_write_buf_ok) simp_all
  let ?s2 = "?s1\<lparr>currentFileSize := logFile_size ?s1\<rparr>"
  let ?s3 = "?s2\<lparr>currentCipherState := resetCipherState ENCRYPTION_KEY (currentFileNonce ?s2)\<rparr>"
  have h: "writeFileHeader s = writeEncryptedLine headerLine ?s3"
    using e w by (simp add: writeFileHeader_def Let_def assms(2) n)
  have p3: "io_plan ?s3 = []" using assms by simp
  have o3: "logFile ?s3 = Some (path, length (c @ ?h))" by simp
  have c3: "files ?s3 path = Some (c @ ?h)" by simp
  show ?thesis
    unfolding h writeEncryptedLine_ok [OF p3 o3 c3]
    by (simp add: new_file_bytes_def logFile_size_def encryptBytes_length)
qed

lemma createNewLogFile_folder_result:
  assumes "io_plan s = []"
  shows "createNewLogFile_folder s = (True, s\<lparr>folder_exists := True\<rparr>)"
  using assms by (cases s) (simp add: createNewLogFile_folder_def io_next_def)

lemma createNewLogFile_result:
  assumes "io_plan s = []"
  shows "createNewLogFile P s =
           (True, s\<lparr>folder_exists := True,
                    currentLogFileName := generateLogFileName P s,
                    entropy := tl (entropy s),
                    currentFileNonce := next_nonce s,
                    currentCipherState :=
                      snd (encryptBytes ENCRYPTION_KEY
                             (resetCipherState ENCRYPTION_KEY (next_nonce s))
                             (line_bytes headerLine)),
                    files := (files s)(generateLogFileName P s \<mapsto>
                               opened_content P s (generateLogFileName P s)
                               @ new_file_bytes (next_nonce s)),
                    logFile := Some (generateLogFileName P s,
                               length (opened_content P s (generateLogFileName P s)
                                       @ new_file_bytes (next_nonce s))),
                    currentFileSize :=
                      of_nat (length (opened_content P s (generateLogFileName P s)
                                      @ new_file_bytes (next_nonce s))),
                    frameSequence := 0\<rparr>)"
proof -
  let ?n = "generateLogFileName P s"
  let ?b = "opened_content P s ?n"
  let ?f = "(logFile_close s)\<lparr>folder_exists := True\<rparr>"
  have pc: "io_plan (logFile_close s) = []" using assms by (simp add: logFile_close_def)
  have f: "createNewLogFile_folder (logFile_close s) = (True, ?f)"
    using pc by (rule createNewLogFile_folder_result)
  have pf: "io_plan ?f = []" using pc by simp
  have nf: "generateLogFileName P ?f = ?n"
    by (rule generateLogFileName_baseTime) (simp add: logFile_close_def)
  have bf: "opened_content P ?f ?n = ?b"
    by (cases "FILE_WRITE P") (simp_all add: opened_content_def file_content_def logFile_close_def)
  let ?o = "?f\<lparr>currentLogFileName := ?n, files := (files ?f)(?n \<mapsto> ?b),
               logFile := Some (?n, length ?b)\<rparr>"
  have o: "createNewLogFile_open P ?f = ?o"
    using createNewLogFile_open_result [OF pf, of P] unfolding nf bf .
  have po: "io_plan ?o = []" using pf by simp
  have lo: "logFile ?o = Some (?n, length ?b)" by simp
  have co: "files ?o ?n = Some ?b" by simp
  have no: "next_nonce ?o = next_nonce s"
    by (simp add: next_nonce_def logFile_close_def)
  note h = writeFileHeader_result [OF po lo co, unfolded no]
  show ?thesis
    by (simp only: createNewLogFile_unfold Let_def f fst_conv snd_conv o h)
       (simp add: logFile_size_def logFile_close_def)
qed

lemma writeCANMessage_flush_rest [simp]:
  "io_plan (writeCANMessage_flush s) = io_plan s"
  "currentFileNonce (writeCANMessage_flush s) = currentFileNonce s"
  "entropy (writeCANMessage_flush s) = entropy s"
  "sens (writeCANMessage_flush s) = sens s"
  "baseTime (writeCANMessage_flush s) = baseTime s"
  "bootMillis (writeCANMessage_flush s) = bootMillis s"
  by (simp_all add: writeCANMessage_flush_def Let_def)












lemma download_reopen_result:
  assumes plan: "io_plan s = []"
    and small: "length (opened_content P s (currentLogFileName s)) < 2 ^ 32"
  shows "download_reopen P s =
           s\<lparr>files := (files s)(currentLogFileName s \<mapsto>
                          opened_content P s (currentLogFileName s)),
              logFile := Some (currentLogFileName s,
                               length (opened_content P s (currentLogFileName s))),
              currentFileSize := of_nat (length (opened_content P s (currentLogFileName s)))\<rparr>"
proof -
  let ?b = "opened_content P s (currentLogFileName s)"
  have u: "unat (of_nat (length ?b) :: u32) = length ?b"
    using small by (simp add: unat_of_nat)
  show ?thesis
    unfolding download_reopen_def Let_def SD_open_write_result [OF plan]
    by (simp add: logFile_seek_def logFile_size_def u)
qed


lemma length_headerLine: "length (line_bytes headerLine) = 219"
  by (simp add: line_bytes_def headerLine_def upt_0_8 String_num.simps digit_char_def)

lemma length_line_123: "length (line_bytes line_123) = 102"
  by (simp add: line_bytes_def line_123_def)

lemma length_log_so_far: "length log_so_far = 337"
  unfolding log_so_far_def length_append length_nxt_header encryptBytes_length
    length_headerLine length_line_123
  by simp

lemma logger_logging_fields:
  "sdCardReady logger_logging"
  "logFile logger_logging = Some (currentLogFileName logger_logging, length log_so_far)"
  "files logger_logging (currentLogFileName logger_logging) = Some log_so_far"
  "io_plan logger_logging = [False]"
  "sens logger_logging = sensors_boot"
  "currentLogFileName logger_logging = ''/CAN_Logged_Data/CAN_LOG_20260129_120001.NXT''"
  "live_ok logger_logging"
  "entropy logger_logging = [(0x1111, 0x2222, 0x3333), (0x4444, 0x5555, 0x6666)]"
  "bootMillis logger_logging = 0"
  by (simp_all add: logger_logging_def logger_recording_def live_ok_def LIVE_BUFFER_SIZE_def
        LiveFrame_zero_def list_all_iff)




text \<open>
  A file made by \<open>createNewLogFile\<close> is open at its end under the name that
  \<open>generateLogFileName\<close> gives for the state.
\<close>

lemma createNewLogFile_names_file:
  assumes "io_plan s = []"
  shows "currentLogFileName (snd (createNewLogFile P s))
           = generateLogFileName P (snd (createNewLogFile P s))
       \<and> logFile (snd (createNewLogFile P s))
           = Some (currentLogFileName (snd (createNewLogFile P s)),
                   length (file_content (snd (createNewLogFile P s))
                             (currentLogFileName (snd (createNewLogFile P s)))))
       \<and> files (snd (createNewLogFile P s)) (currentLogFileName (snd (createNewLogFile P s)))
           \<noteq> None"
  unfolding createNewLogFile_result [OF assms]
  by (simp add: generateLogFileName_def file_content_def)

subsection \<open>The size limit\<close>

text \<open>
  Claim C4, as the code has it. \<open>Lastry.ino\<close> does not roll over: a call of
  \<open>writeCANMessage\<close> that finds \<open>currentFileSize\<close> above \<open>MAX_FILE_SIZE\<close> (10 MB)
  writes nothing, closes the file, clears \<open>loggingEnabled\<close>, sets \<open>stoppedByUser\<close> and
  returns false; no new file is created, every later call returns false with the state
  unchanged, and the files on the card are as they were. \<open>CAN_Data_Logger_Encoded.ino\<close>
  has no size limit: a successful \<open>writeCANMessage\<close> on a ready card with an open log
  file leaves the same file open under the same name, whatever \<open>currentFileSize\<close> is.
\<close>

theorem size_limit_stops_logging:
  assumes "logFile s \<noteq> None" and "sdCardReady s" and "currentFileSize s > MAX_FILE_SIZE_Lastry"
  shows "writeCANMessage_Lastry P frame timestamp us s =
           Some (False, s\<lparr>loggingEnabled := False, stoppedByUser := True, logFile := None\<rparr>)
       \<and> writeCANMessage_Lastry P frame' timestamp' us'
            (s\<lparr>loggingEnabled := False, stoppedByUser := True, logFile := None\<rparr>) =
           Some (False, s\<lparr>loggingEnabled := False, stoppedByUser := True, logFile := None\<rparr>)
       \<and> files (s\<lparr>loggingEnabled := False, stoppedByUser := True, logFile := None\<rparr>) = files s
       \<and> (sdCardReady e \<and> logFile e = Some (path, pos)
              \<and> writeCANMessage P frame timestamp us e = Some (True, e')
            \<longrightarrow> (\<exists>pos'. logFile e' = Some (path, pos'))
                \<and> currentLogFileName e' = currentLogFileName e)"
proof -
  have 1: "writeCANMessage_Lastry P frame timestamp us s =
           Some (False, s\<lparr>loggingEnabled := False, stoppedByUser := True, logFile := None\<rparr>)"
    using assms
    by (auto simp: writeCANMessage_Lastry_def closeCurrentFile_Lastry_def logFile_close_def)
  have 2: "writeCANMessage_Lastry P frame' timestamp' us'
            (s\<lparr>loggingEnabled := False, stoppedByUser := True, logFile := None\<rparr>) =
           Some (False, s\<lparr>loggingEnabled := False, stoppedByUser := True, logFile := None\<rparr>)"
    by (simp add: writeCANMessage_Lastry_def)
  have 3: "files (s\<lparr>loggingEnabled := False, stoppedByUser := True, logFile := None\<rparr>) = files s"
    by simp
  have 4: "sdCardReady e \<and> logFile e = Some (path, pos)
              \<and> writeCANMessage P frame timestamp us e = Some (True, e')
            \<longrightarrow> (\<exists>pos'. logFile e' = Some (path, pos'))
                \<and> currentLogFileName e' = currentLogFileName e"
    using writeCANMessage_no_rollover [of e path pos P frame timestamp us e'] by blast
  from 1 2 3 4 show ?thesis by (intro conjI)
qed

theorem size_limit_stops_logging_witness:
  "logFile lastry_full \<noteq> None \<and> sdCardReady lastry_full
   \<and> currentFileSize lastry_full > MAX_FILE_SIZE_Lastry
   \<and> writeCANMessage_Lastry platform_appending frame_123 0 0 lastry_full =
         Some (False, lastry_full\<lparr>loggingEnabled := False, stoppedByUser := True,
                                  logFile := None\<rparr>)
   \<and> writeCANMessage_Lastry platform_appending frame_dlc15 1 1
        (lastry_full\<lparr>loggingEnabled := False, stoppedByUser := True, logFile := None\<rparr>) =
         Some (False, lastry_full\<lparr>loggingEnabled := False, stoppedByUser := True,
                                  logFile := None\<rparr>)
   \<and> files (lastry_full\<lparr>loggingEnabled := False, stoppedByUser := True, logFile := None\<rparr>)
       = files lastry_full
   \<and> sdCardReady (logger_recording\<lparr>io_plan := []\<rparr>)
   \<and> logFile (logger_recording\<lparr>io_plan := []\<rparr>)
       = Some (''/CAN_Logged_Data/CAN_LOG_20260129_120001.NXT'', 16)
   \<and> writeCANMessage platform_appending frame_123 0 0 (logger_recording\<lparr>io_plan := []\<rparr>)
       = Some (True, snd (the (writeCANMessage platform_appending frame_123 0 0
                                 (logger_recording\<lparr>io_plan := []\<rparr>))))
   \<and> (\<exists>pos'. logFile (snd (the (writeCANMessage platform_appending frame_123 0 0
                                    (logger_recording\<lparr>io_plan := []\<rparr>))))
                = Some (''/CAN_Logged_Data/CAN_LOG_20260129_120001.NXT'', pos'))
   \<and> currentLogFileName (snd (the (writeCANMessage platform_appending frame_123 0 0
                                      (logger_recording\<lparr>io_plan := []\<rparr>))))
       = currentLogFileName (logger_recording\<lparr>io_plan := []\<rparr>)"
proof -
  let ?e = "logger_recording\<lparr>io_plan := []\<rparr>"
  let ?n = "''/CAN_Logged_Data/CAN_LOG_20260129_120001.NXT''"
  let ?w = "writeCANMessage platform_appending frame_123 0 0 ?e"
  have h1: "logFile lastry_full \<noteq> None" by (simp add: lastry_full_def)
  have h2: "sdCardReady lastry_full" by (simp add: lastry_full_def)
  have h3: "currentFileSize lastry_full > MAX_FILE_SIZE_Lastry"
    by (simp add: lastry_full_def MAX_FILE_SIZE_Lastry_def)
  have h4: "sdCardReady ?e" by (simp add: logger_recording_fields)
  have h5: "logFile ?e = Some (?n, 16)" by (simp add: logger_recording_fields)
  have o: "logFile ?e = Some (?n, length (nxt_header 0x12345678))"
    by (simp add: logger_recording_fields length_nxt_header)
  have c: "files ?e ?n = Some (nxt_header 0x12345678)"
    using logger_recording_fields(3) by (simp add: logger_recording_fields(6))
  have l: "csv_line (format_timeStr platform_appending 0) 0 0 frame_123 (sens ?e) = Some line_123"
    using csv_line_123 [OF platform_example_fields(2)] by (simp add: logger_recording_fields)
  have p: "io_plan ?e = []" by simp
  note w = writeCANMessage_ok [OF h4 p o c l]
  have h6: "?w = Some (True, snd (the ?w))" unfolding w by simp
  note t = size_limit_stops_logging [OF h1 h2 h3, where e = ?e and path = ?n and pos = 16
      and e' = "snd (the ?w)" and P = platform_appending and frame = frame_123
      and timestamp = 0 and us = 0 and frame' = frame_dlc15 and timestamp' = 1 and us' = 1]
  show ?thesis using h1 h2 h3 h4 h5 h6 t by blast
qed

text \<open>
  The rollover of claim C4 does not take place: a Lastry writer whose file has passed the
  limit answers the next frame by closing the file and stopping; afterwards no file is open,
  logging is disabled and the card holds the same files as before.
\<close>

theorem rollover_counterexample:
  "writeCANMessage_Lastry platform_appending frame_123 1769678401 123456 lastry_full =
     Some (False, lastry_full\<lparr>loggingEnabled := False, stoppedByUser := True, logFile := None\<rparr>)
   \<and> currentFileSize lastry_full > MAX_FILE_SIZE_Lastry
   \<and> logFile lastry_full \<noteq> None
   \<and> logFile (snd (the (writeCANMessage_Lastry platform_appending frame_123 1769678401 123456
                          lastry_full))) = None
   \<and> files (snd (the (writeCANMessage_Lastry platform_appending frame_123 1769678401 123456
                          lastry_full))) = files lastry_full
   \<and> \<not> loggingEnabled (snd (the (writeCANMessage_Lastry platform_appending frame_123 1769678401
                          123456 lastry_full)))"
  by (simp add: writeCANMessage_Lastry_def closeCurrentFile_Lastry_def logFile_close_def
        lastry_full_def MAX_FILE_SIZE_Lastry_def)

subsection \<open>Write failures and the retry of the receive loop\<close>



subsection \<open>Reopening the log file after a download\<close>

text \<open>
  Claim C7, as the code has it. When the active log file, holding the bytes \<open>c\<close>, is
  downloaded and the first open for reading fails, \<open>handleFileDownload\<close> closes the log
  file, sends \<open>c\<close>, and opens the log file again with \<open>FILE_WRITE\<close>, the mode in which
  \<open>createNewLogFile\<close> opens a new file. Afterwards \<open>currentFileSize\<close> is the size of the
  file on the card and the write position is at its end, but what the file holds is what
  \<open>FILE_WRITE\<close> leaves of it: \<open>c\<close> if it keeps an existing file, nothing if it empties
  it. The next \<open>writeCANMessage\<close> adds the encrypted line, the cipher state continued, to
  that: with an emptying \<open>FILE_WRITE\<close> the file then holds this one line, without a
  header and without the records before it.
\<close>

theorem reopen_after_read_follows_FILE_WRITE:
  assumes ready: "sdCardReady s"
    and "open": "logFile s = Some (currentLogFileName s, pos)"
    and content: "files s (currentLogFileName s) = Some c"
    and slash: "startsWith (currentLogFileName s) ''/''"
    and dots: "\<not> has_dotdot (currentLogFileName s)"
    and plan: "io_plan s = [False]"
    and small: "length c < 2 ^ 32"
    and line: "csv_line (format_timeStr P timestamp) timestamp us frame (sens s) = Some line"
  shows "\<exists>s' s''.
           handleFileDownload P (currentLogFileName s) s = ((200, c), s')
         \<and> files s' =
             (files s)(currentLogFileName s \<mapsto>
                (case FILE_WRITE P of OpenTruncate \<Rightarrow> [] | OpenAppend \<Rightarrow> c))
         \<and> currentFileSize s' =
             of_nat (length (case FILE_WRITE P of OpenTruncate \<Rightarrow> [] | OpenAppend \<Rightarrow> c))
         \<and> logFile_size s' = currentFileSize s'
         \<and> logFile s' =
             Some (currentLogFileName s,
                   length (case FILE_WRITE P of OpenTruncate \<Rightarrow> [] | OpenAppend \<Rightarrow> c))
         \<and> currentCipherState s' = currentCipherState s
         \<and> sdCardReady s'
         \<and> writeCANMessage P frame timestamp us s' = Some (True, s'')
         \<and> files s'' (currentLogFileName s) =
             Some ((case FILE_WRITE P of OpenTruncate \<Rightarrow> [] | OpenAppend \<Rightarrow> c)
                   @ fst (encryptBytes ENCRYPTION_KEY (currentCipherState s) (line_bytes line)))
         \<and> currentFileSize s'' =
             of_nat (length (case FILE_WRITE P of OpenTruncate \<Rightarrow> [] | OpenAppend \<Rightarrow> c))
             + of_nat (length line + 1)"
proof -
  let ?n = "currentLogFileName s"
  let ?b = "case FILE_WRITE P of OpenTruncate \<Rightarrow> [] | OpenAppend \<Rightarrow> c"
  let ?s0 = "s\<lparr>io_plan := [], logFile := None\<rparr>"
  have b: "opened_content P ?s0 ?n = ?b"
    using content by (cases "FILE_WRITE P") (simp_all add: opened_content_def file_content_def)
  have lb: "length ?b < 2 ^ 32" using small by (cases "FILE_WRITE P") simp_all
  let ?s' = "?s0\<lparr>files := (files ?s0)(?n \<mapsto> ?b), logFile := Some (?n, length ?b),
                  currentFileSize := of_nat (length ?b)\<rparr>"
  have r: "download_reopen P ?s0 = ?s'"
    using download_reopen_result [of ?s0 P] lb by (simp add: b)
  have d: "handleFileDownload P ?n s = ((200, c), ?s')"
    using download_active_file [OF ready "open" content slash dots plan, of P] r by simp
  let ?s'' = "writeCANMessage_flush
             (?s'\<lparr>currentCipherState :=
                      snd (encryptBytes ENCRYPTION_KEY (currentCipherState ?s') (line_bytes line)),
                    files := (files ?s')(?n \<mapsto>
                      ?b @ fst (encryptBytes ENCRYPTION_KEY (currentCipherState ?s') (line_bytes line))),
                    logFile := Some (?n, length ?b + length (line_bytes line)),
                    currentFileSize := currentFileSize ?s' + of_nat (length line + 1)\<rparr>)"
  have w: "writeCANMessage P frame timestamp us ?s' = Some (True, ?s'')"
    using ready line by (intro writeCANMessage_ok) simp_all
  have sz: "logFile_size ?s' = currentFileSize ?s'"
    by (simp add: logFile_size_def)
  have 1: "files ?s' = (files s)(?n \<mapsto> ?b)" by simp
  have 2: "currentFileSize ?s' = of_nat (length ?b)" by simp
  have 3: "logFile ?s' = Some (?n, length ?b)" by simp
  have 4: "currentCipherState ?s' = currentCipherState s" by simp
  have 5: "sdCardReady ?s'" using ready by simp
  have 6: "files ?s'' ?n =
      Some (?b @ fst (encryptBytes ENCRYPTION_KEY (currentCipherState s) (line_bytes line)))"
    by simp
  have 7: "currentFileSize ?s'' = of_nat (length ?b) + of_nat (length line + 1)"
    by simp
  from d 1 2 sz 3 4 5 w 6 7 show ?thesis by blast
qed

theorem reopen_after_read_follows_FILE_WRITE_witness:
  "sdCardReady logger_logging
   \<and> logFile logger_logging = Some (currentLogFileName logger_logging, length log_so_far)
   \<and> files logger_logging (currentLogFileName logger_logging) = Some log_so_far
   \<and> startsWith (currentLogFileName logger_logging) ''/''
   \<and> \<not> has_dotdot (currentLogFileName logger_logging)
   \<and> io_plan logger_logging = [False]
   \<and> length log_so_far < 2 ^ 32
   \<and> csv_line (format_timeStr platform_truncating 0) 0 0 frame_123 (sens logger_logging)
       = Some line_123
   \<and> (\<exists>s' s''.
           handleFileDownload platform_truncating (currentLogFileName logger_logging)
             logger_logging = ((200, log_so_far), s')
         \<and> files s' (currentLogFileName logger_logging) = Some []
         \<and> currentFileSize s' = 0
         \<and> logFile s' = Some (currentLogFileName logger_logging, 0)
         \<and> sdCardReady s'
         \<and> writeCANMessage platform_truncating frame_123 0 0 s' = Some (True, s'')
         \<and> files s'' (currentLogFileName logger_logging) =
               Some (fst (encryptBytes ENCRYPTION_KEY (currentCipherState logger_logging)
                            (line_bytes line_123))))"
proof -
  note h1 = logger_logging_fields(1)
  note h2 = logger_logging_fields(2)
  note h3 = logger_logging_fields(3)
  have h4: "startsWith (currentLogFileName logger_logging) ''/''"
    by (simp add: logger_logging_fields(6) startsWith_def)
  have h5: "\<not> has_dotdot (currentLogFileName logger_logging)"
    by (simp add: logger_logging_fields(6))
  note h6 = logger_logging_fields(4)
  have h7: "length log_so_far < 2 ^ 32" by (simp add: length_log_so_far)
  have h8: "csv_line (format_timeStr platform_truncating 0) 0 0 frame_123 (sens logger_logging)
       = Some line_123"
    unfolding logger_logging_fields(5) by (rule csv_line_123 [OF platform_example_fields(1)])
  from reopen_after_read_follows_FILE_WRITE [OF h1 h2 h3 h4 h5 h6 h7 h8]
  obtain s' s'' where
    a: "handleFileDownload platform_truncating (currentLogFileName logger_logging)
          logger_logging = ((200, log_so_far), s')"
    and b: "files s' (currentLogFileName logger_logging) = Some []"
      "currentFileSize s' = 0" "logFile s' = Some (currentLogFileName logger_logging, 0)"
      "sdCardReady s'"
      "writeCANMessage platform_truncating frame_123 0 0 s' = Some (True, s'')"
      "files s'' (currentLogFileName logger_logging) =
         Some (fst (encryptBytes ENCRYPTION_KEY (currentCipherState logger_logging)
                      (line_bytes line_123)))"
    unfolding platform_example_fields(3) by auto
  show ?thesis using h1 h2 h3 h4 h5 h6 h7 h8 a b by blast
qed

lemma reach_205: "storeLiveFrames pushes_205 live_boot = Some live_after_205"
  by code_simp

theorem live_query_since_clamp_witness:
  "list_all (\<lambda>p. CanFrame_ok (fst p)) pushes_205
   \<and> storeLiveFrames pushes_205 live_boot = Some live_after_205
   \<and> live_since (Some 1) < live_earliestSeq (liveFrameCounter live_after_205)
   \<and> handleLiveData (Some 1) (Some 3) live_after_205 =
         Some (liveFrameCounter live_after_205,
               take (nat (live_limit (Some 3))) (live_retained live_after_205))
   \<and> map seq (take (nat (live_limit (Some 3))) (live_retained live_after_205)) = [6, 7, 8]"
proof -
  have h1: "list_all (\<lambda>p. CanFrame_ok (fst p)) pushes_205"
    using CanFrame_ok_frame_123 by (simp add: pushes_205_def list_all_iff)
  have h3: "live_since (Some 1) < live_earliestSeq (liveFrameCounter live_after_205)"
    by (simp add: live_since_def live_earliestSeq_def live_after_205_def)
  note t = live_query_since_clamp [OF h1 reach_205 h3, of "Some 3"]
  have v: "map seq (take (nat (live_limit (Some 3))) (live_retained live_after_205)) = [6, 7, 8]"
    by code_simp
  show ?thesis using h1 reach_205 h3 t v by blast
qed

end
